theory Spec2Isabelle
  imports
    Main
    "HOL-Library.Word"
    "HOL-Library.Char_ord"
    "HOL-Library.List_Lexorder"
    "HOL-Library.Sublist"
begin

section \<open>Strings and JavaScript values\<close>

text \<open>
  A JavaScript string is represented by its UTF-8 encoding: a \<open>string\<close> is a list of
  bytes. This is the form in which document ids travel to the remote database and in
  which the remote's \<open>_all_docs\<close> index compares them (byte-wise, which for well-formed
  UTF-8 is code point order). The orders on \<open>char\<close> and on lists are those of
  \<open>Char_ord\<close> and \<open>List_Lexorder\<close>.

  An optional value (\<open>string | undefined\<close>, a JSON member that may be absent) is an
  \<open>option\<close>, with \<open>None\<close> for \<open>undefined\<close>.
\<close>

text \<open>The conditions \<open>if (s)\<close> and \<open>s ? a : b\<close> on an optional string: \<open>undefined\<close> and
  the empty string are falsy.\<close>

definition truthy :: "string option \<Rightarrow> bool" where
  "truthy s = (case s of None \<Rightarrow> False | Some t \<Rightarrow> t \<noteq> [])"

text \<open>\<open>b ?? false\<close> on an optional boolean.\<close>

definition orFalse :: "bool option \<Rightarrow> bool" where
  "orFalse b = (case b of None \<Rightarrow> False | Some v \<Rightarrow> v)"

text \<open>An optional string inside a template literal, \<open>`${s}`\<close>, and as a property name,
  \<open>obj[s]\<close>.\<close>

definition template :: "string option \<Rightarrow> string" where
  "template s = (case s of None \<Rightarrow> ''undefined'' | Some t \<Rightarrow> t)"

text \<open>The string \<open>"\u{10ffff}"\<close>: the highest code point, four bytes in UTF-8.\<close>

definition U10FFFF :: string where
  "U10FFFF = [CHR 0xF4, CHR 0x8F, CHR 0xBF, CHR 0xBF]"

text \<open>\<open>s.length\<close> counts UTF-16 code units: one for every code point, two for a code
  point outside the basic plane. On the UTF-8 bytes that is one for every byte that is
  not a continuation byte (\<open>10xxxxxx\<close>), and one more for every lead byte of a four-byte
  sequence (\<open>0xF0\<close> and above).\<close>

definition continuation :: "char \<Rightarrow> bool" where
  "continuation c = (0x80 \<le> (of_char c :: nat) \<and> (of_char c :: nat) < 0xC0)"

definition js_length :: "string \<Rightarrow> nat" where
  "js_length s =
     length (filter (\<lambda>c. \<not> continuation c) s) + length (filter (\<lambda>c. 0xF0 \<le> (of_char c :: nat)) s)"

text \<open>\<open>n.toString(radix)\<close> on a non-negative integer, for a radix up to 36; the template
  literal \<open>`${n}`\<close> is radix 10.\<close>

definition digit36 :: "nat \<Rightarrow> char" where
  "digit36 d = ''0123456789abcdefghijklmnopqrstuvwxyz'' ! d"

function toStringRadix :: "nat \<Rightarrow> nat \<Rightarrow> string" where
  "toStringRadix b n =
     (if b < 2 \<or> n < b then [digit36 n] else toStringRadix b (n div b) @ [digit36 (n mod b)])"
  by pat_completeness auto
termination
  by (relation "measure snd") auto

declare toStringRadix.simps [simp del]

section \<open>Configuration and collaborators\<close>

text \<open>\<open>DirectFileManipulatorOptions\<close>. The connection settings (\<open>url\<close>, \<open>username\<close>,
  \<open>password\<close>, \<open>database\<close>) only address the remote, which is a parameter of the model
  below, and are left out.\<close>

record options =
  passphrase :: "string option"
  obfuscatePassphrase :: "string option"
  useDynamicIterationCount :: "bool option"
  customChunkSize :: "nat option"
  minimumChunkSize :: "nat option"
  useV1 :: "bool option"

text \<open>
  The functions that \<open>DirectFileManipulator\<close> imports and whose sources are not among
  the sources, and the hash of the \<open>xxhash-wasm\<close> library, are parameters:
  \<^item> \<open>h64\<close>: \<open>_xxhash64\<close>, an unsigned 64-bit hash of a string;
  \<^item> \<open>encrypt input passphrase autoCalculateIterations useV1\<close> of \<open>e2ee_v2.ts\<close>;
  \<^item> \<open>decrypt input passphrase autoCalculateIterations\<close> of \<open>e2ee_v2.ts\<close>, \<open>None\<close> when it
    throws;
  \<^item> \<open>path2id_base path obfuscatePassphrase\<close> of \<open>path.ts\<close> (the second argument is
    \<open>None\<close> for \<open>false\<close>);
  \<^item> \<open>pieces opts path data\<close>: the pieces that
    \<open>splitPieces2(data, pieceSize, plainSplit, minimumChunkSize, path, useV1)\<close> of
    \<open>strbin.ts\<close> generates. \<open>put\<close> computes \<open>pieceSize\<close> (in floating point),
    \<open>plainSplit\<close> (by \<open>shouldSplitAsPlainText\<close> of \<open>path.ts\<close>) and \<open>minimumChunkSize\<close> from
    the options and the path alone, so the pieces are a function of the options, the path
    and the data.
\<close>

record env =
  h64 :: "string \<Rightarrow> 64 word"
  encrypt :: "string \<Rightarrow> string \<Rightarrow> bool \<Rightarrow> bool \<Rightarrow> string"
  decrypt :: "string \<Rightarrow> string \<Rightarrow> bool \<Rightarrow> string option"
  path2id_base :: "string \<Rightarrow> string option \<Rightarrow> string"
  pieces :: "options \<Rightarrow> string \<Rightarrow> string list \<Rightarrow> string list"

text \<open>
  Modelled from the spec: \<open>encrypt\<close> and \<open>decrypt\<close> (\<open>e2ee_v2.ts\<close> is not among the
  sources). The specification's section on the cipher says that encryption is symmetric
  under a passphrase-derived key and authenticated, and that decrypting a value that was
  not produced by encryption, or under a different passphrase, fails. As a contract on
  the two parameters:
  \<^item> decrypting a ciphertext under its own passphrase gives the plaintext back;
  \<^item> decrypting it under another passphrase fails;
  \<^item> whatever decrypts under a passphrase was produced by encryption under it;
  \<^item> the authentication data makes a ciphertext longer than its plaintext.
\<close>

definition crypto_spec :: "env \<Rightarrow> bool" where
  "crypto_spec E =
     ((\<forall>x k d v. decrypt E (encrypt E x k d v) k d = Some x) \<and>
      (\<forall>x k k' d d' v. k \<noteq> k' \<longrightarrow> decrypt E (encrypt E x k d v) k' d' = None) \<and>
      (\<forall>c k d x. decrypt E c k d = Some x \<longrightarrow> (\<exists>v. c = encrypt E x k d v)) \<and>
      (\<forall>x k d v. length x < length (encrypt E x k d v)))"

section \<open>Documents and errors\<close>

text \<open>
  The records of the code (\<open>ret\<close> in \<open>_collectChunks\<close>, \<open>chunks\<close> in \<open>put\<close>) are plain
  JavaScript objects, created by \<open>{}\<close>, so they inherit the members of \<open>Object.prototype\<close>.
  A read \<open>obj[k]\<close> and the test \<open>k in obj\<close> see an inherited member when the object has no
  own property \<open>k\<close>. An assignment \<open>obj[k] = v\<close> creates or updates an own property, except
  for \<open>k = "__proto__"\<close>: that name is an accessor of the prototype, whose setter ignores
  a value that is not an object, and the code only assigns strings and booleans.
\<close>

definition protoNames :: "string list" where
  "protoNames =
     [''constructor'', ''__defineGetter__'', ''__defineSetter__'', ''hasOwnProperty'',
      ''__lookupGetter__'', ''__lookupSetter__'', ''isPrototypeOf'', ''propertyIsEnumerable'',
      ''toString'', ''valueOf'', ''__proto__'', ''toLocaleString'']"

definition inherited :: "string \<Rightarrow> bool" where
  "inherited k = (k \<in> set protoNames)"

text \<open>A value read from the record that \<open>_collectChunks\<close> returns
  (\<open>Record<string, string | boolean>\<close>): a chunk's text, a flag, or the member of
  \<open>Object.prototype\<close> of the given name (a function, for \<open>__proto__\<close> the prototype
  itself), which is neither a string nor \<open>false\<close>.\<close>

datatype chunkval = Payload string | Flag bool | Inherited string

text \<open>A value inside a template literal. No JSON document holds a member of
  \<open>Object.prototype\<close>, so the last clause is not reached by data that comes from the
  remote; it is the text that V8 gives.\<close>

fun chunkString :: "chunkval \<Rightarrow> string" where
  "chunkString (Payload s) = s"
| "chunkString (Flag b) = (if b then ''true'' else ''false'')"
| "chunkString (Inherited n) =
     (if n = ''__proto__'' then ''[object Object]''
      else ''function '' @ (if n = ''constructor'' then ''Object'' else n) @ ''() { [native code] }'')"

text \<open>The record \<open>ret\<close> of \<open>_collectChunks\<close> is only read and assigned by name, so it is
  modelled by what a read gives: \<open>None\<close> when \<open>k in ret\<close> is false. \<open>emptyObj\<close> is \<open>{}\<close>
  and \<open>assignVal ret k v\<close> is \<open>ret[k] = v\<close>.\<close>

definition emptyObj :: "string \<rightharpoonup> chunkval" where
  "emptyObj = (\<lambda>k. if inherited k then Some (Inherited k) else None)"

definition assignVal :: "(string \<rightharpoonup> chunkval) \<Rightarrow> string \<Rightarrow> chunkval \<Rightarrow> (string \<rightharpoonup> chunkval)" where
  "assignVal ret k v = (if k = ''__proto__'' then ret else ret(k \<mapsto> v))"

text \<open>The \<open>data\<close> member of a document: a string in a leaf, a list in a loaded entry
  (\<open>getByMeta\<close> casts the values it collected to \<open>string[]\<close>). \<open>`${doc.data}`\<close> joins a
  list with commas.\<close>

datatype jdata = DStr string | DArr "chunkval list"

fun joinComma :: "string list \<Rightarrow> string" where
  "joinComma [] = []"
| "joinComma [x] = x"
| "joinComma (x # y # zs) = x @ '','' @ joinComma (y # zs)"

fun dataString :: "jdata \<Rightarrow> string" where
  "dataString (DStr s) = s"
| "dataString (DArr xs) = joinComma (map chunkString xs)"

text \<open>A JSON document as the code reads it (\<open>MetaEntry\<close>, \<open>ReadyEntry\<close>, \<open>EntryLeaf\<close> and
  the remote's error objects): the members whose presence the code tests are optional.\<close>

record docu =
  d_id :: "string option"
  d_rev :: "string option"
  d_type :: "string option"
  d_path :: string
  d_children :: "string list"
  d_ctime :: int
  d_mtime :: int
  d_size :: int
  d_deleted :: "bool option"
  d_data :: "jdata option"

text \<open>Every \<open>throw\<close> of the source, the failure of \<open>decrypt\<close>, a rejected request and the
  run-time \<open>TypeError\<close> of JavaScript (\<open>in\<close> on \<open>null\<close>, iterating what is not a list).\<close>

datatype error =
    ApiError
  | CorruptedChunk string
  | PointedNonChunk string
  | NoDataContained string
  | MissingChunks string
  | ChunkUploadingFailed "string option"
  | SomethingHappened string
  | DecryptError
  | TypeError
  | FetchError

section \<open>Path encryption\<close>

definition encryptDocumentPath :: "env \<Rightarrow> options \<Rightarrow> docu \<Rightarrow> docu" where
  "encryptDocumentPath E opts entry =
     entry\<lparr>d_path :=
       (case obfuscatePassphrase opts of
          None \<Rightarrow> d_path entry
        | Some k \<Rightarrow>
            if k \<noteq> []
            then encrypt E (d_path entry) k (orFalse (useDynamicIterationCount opts))
                   (orFalse (useV1 opts))
            else d_path entry)\<rparr>"

definition decryptDocumentPath :: "env \<Rightarrow> options \<Rightarrow> docu \<Rightarrow> error + docu" where
  "decryptDocumentPath E opts entry =
     (case passphrase opts of
        None \<Rightarrow> Inr entry
      | Some k \<Rightarrow>
          if k \<noteq> []
          then (case decrypt E (d_path entry) k (orFalse (useDynamicIterationCount opts)) of
                  None \<Rightarrow> Inl DecryptError
                | Some p \<Rightarrow> Inr (entry\<lparr>d_path := p\<rparr>))
          else Inr entry)"

section \<open>The chunk cache\<close>

text \<open>
  Modelled from the spec: \<open>LRUCache\<close> (\<open>LRUCache.ts\<close> is not among the sources). The
  specification describes a bidirectional cache, chunk id to plaintext and plaintext to
  chunk id, bounded by the number of entries and by the aggregate size of the plaintexts,
  which evicts the least recently used entries when a bound is exceeded. The entries are
  kept least recently used first; a lookup in either direction makes its entry the most
  recent. Keys and values are optional strings because \<open>put\<close> can pass \<open>undefined\<close> for
  both; \<open>None\<close> as a value stands for any value that is not a string.
\<close>

record lru =
  entries :: "(string option \<times> string option) list"
  maxCache :: nat
  maxCachedLength :: nat

definition valueLength :: "string option \<Rightarrow> nat" where
  "valueLength v = (case v of None \<Rightarrow> 0 | Some s \<Rightarrow> length s)"

definition cachedLength :: "(string option \<times> string option) list \<Rightarrow> nat" where
  "cachedLength es = sum_list (map (\<lambda>e. valueLength (snd e)) es)"

fun evict :: "nat \<Rightarrow> nat \<Rightarrow> (string option \<times> string option) list \<Rightarrow>
    (string option \<times> string option) list" where
  "evict n m [] = []"
| "evict n m (e # es) =
     (if n < length (e # es) \<or> m < cachedLength (e # es) then evict n m es else e # es)"

definition cache_get :: "lru \<Rightarrow> string option \<Rightarrow> string option \<times> lru" where
  "cache_get c k =
     (case map_of (entries c) k of
        None \<Rightarrow> (None, c)
      | Some v \<Rightarrow> (v, c\<lparr>entries := filter (\<lambda>e. fst e \<noteq> k) (entries c) @ [(k, v)]\<rparr>))"

definition cache_revGet :: "lru \<Rightarrow> string \<Rightarrow> string option \<times> lru" where
  "cache_revGet c v =
     (case find (\<lambda>e. snd e = Some v) (rev (entries c)) of
        None \<Rightarrow> (None, c)
      | Some e \<Rightarrow> (fst e, c\<lparr>entries := remove1 e (entries c) @ [e]\<rparr>))"

definition cache_set :: "lru \<Rightarrow> string option \<Rightarrow> string option \<Rightarrow> lru" where
  "cache_set c k v =
     c\<lparr>entries :=
         evict (maxCache c) (maxCachedLength c)
           (filter (\<lambda>e. fst e \<noteq> k) (entries c) @ [(k, v)])\<rparr>"

section \<open>The remote database\<close>

text \<open>
  The remote is the CouchDB-compatible server behind \<open>_fetch\<close> and \<open>_fetchJson\<close>. It is a
  parameter: a state of any type \<open>'r\<close> and one handler for each kind of request that the
  code sends. A handler returns the parsed JSON of the response, or an error when the
  request is rejected or the body is not JSON. Reading requests leave the remote's state
  as it is; \<open>_bulk_docs\<close> and the \<open>PUT\<close> of a document return the new state.
\<close>

text \<open>A row of an \<open>_all_docs\<close> response. \<open>r_doc\<close> is \<open>None\<close> when the row has no \<open>doc\<close>
  member and \<open>Some None\<close> when the member is \<open>null\<close>.\<close>

record row =
  r_key :: string
  r_error :: "string option"
  r_doc :: "docu option option"

text \<open>A leaf as \<open>put\<close> uploads it.\<close>

record leafdoc =
  l_id :: string
  l_data :: string
  l_type :: string

text \<open>One result of a \<open>_bulk_docs\<close> response, with the members that \<open>put\<close> reads.\<close>

record bulk_result =
  b_ok :: bool
  b_id :: "string option"
  b_key :: "string option"
  b_error :: "string option"

text \<open>An element of the \<open>results\<close> of a \<open>_changes\<close> response, and the response.\<close>

record change =
  c_seq :: "string option"
  c_doc :: "docu option"

record changes_result =
  pending :: "int option"
  results :: "change list option"

text \<open>The query of a \<open>_changes\<close> request.\<close>

record changes_query =
  q_style :: string
  q_filter :: string
  q_include_docs :: bool
  q_since :: string
  q_feed :: string
  q_limit :: nat

datatype request =
    Get string
  | AllDocsKeys bool "string list"
  | AllDocsRange string string nat
  | BulkDocs "leafdoc list"
  | Put string docu
  | Changes changes_query

record 'r remote =
  getDoc :: "'r \<Rightarrow> string \<Rightarrow> error + docu"
  allDocsKeys :: "'r \<Rightarrow> bool \<Rightarrow> string list \<Rightarrow> error + row list option"
  allDocsRange :: "'r \<Rightarrow> string \<Rightarrow> string \<Rightarrow> nat \<Rightarrow> error + row list option"
  bulkDocs :: "'r \<Rightarrow> leafdoc list \<Rightarrow> (error + bulk_result list) \<times> 'r"
  putDoc :: "'r \<Rightarrow> string \<Rightarrow> docu \<Rightarrow> (error + bool) \<times> 'r"
  changes :: "'r \<Rightarrow> changes_query \<Rightarrow> error + changes_result"

section \<open>The state of a manipulator\<close>

text \<open>
  The members \<open>hashCaches\<close> and \<open>since\<close> of \<open>DirectFileManipulator\<close>, together with what
  the model observes of a run: the state of the remote, the requests sent so far in
  order (\<open>trace\<close>), the invocations of the callback of \<open>followUpdates\<close> in order
  (\<open>delivered\<close>) and the \<open>_changes\<close> responses that \<open>followUpdates\<close> has read (\<open>pages\<close>).
\<close>

record 'r state =
  hashCaches :: lru
  since :: string
  remote :: "'r"
  trace :: "request list"
  delivered :: "(docu \<times> string option) list"
  pages :: "changes_result list"

section \<open>Collecting chunks\<close>

text \<open>\<open>unique\<close>: the elements of a \<open>Set\<close> in insertion order.\<close>

definition unique :: "'a list \<Rightarrow> 'a list" where
  "unique xs = foldl (\<lambda>acc x. if x \<in> set acc then acc else acc @ [x]) [] xs"

text \<open>The first loop of \<open>_collectChunks\<close>: the ids found in the cache go to the result,
  the others to \<open>reqIds\<close>.\<close>

fun lookupCached :: "string list \<Rightarrow> lru \<Rightarrow> (string \<rightharpoonup> chunkval) \<Rightarrow> string list \<Rightarrow>
    lru \<times> (string \<rightharpoonup> chunkval) \<times> string list" where
  "lookupCached [] c ret reqIds = (c, ret, reqIds)"
| "lookupCached (i # ids) c ret reqIds =
     (case cache_get c (Some i) of
        (Some cachedChunk, c') \<Rightarrow> lookupCached ids c' (assignVal ret i (Payload cachedChunk)) reqIds
      | (None, c') \<Rightarrow> lookupCached ids c' ret (reqIds @ [i]))"

text \<open>The second loop of \<open>_collectChunks\<close>, over the rows of the response.\<close>

fun collectRows :: "env \<Rightarrow> options \<Rightarrow> bool \<Rightarrow> row list \<Rightarrow> lru \<Rightarrow> (string \<rightharpoonup> chunkval) \<Rightarrow>
    (error + (string \<rightharpoonup> chunkval)) \<times> lru" where
  "collectRows E opts onlyCheckExistence [] c ret = (Inr ret, c)"
| "collectRows E opts onlyCheckExistence (v # vs) c ret =
     (if truthy (r_error v) then
        collectRows E opts onlyCheckExistence vs c (assignVal ret (r_key v) (Flag False))
      else if onlyCheckExistence then
        collectRows E opts onlyCheckExistence vs c (assignVal ret (r_key v) (Flag True))
      else
        (case r_doc v of
           None \<Rightarrow> (Inl (CorruptedChunk (r_key v)), c)
         | Some None \<Rightarrow> (Inl TypeError, c)
         | Some (Some doc) \<Rightarrow>
             if d_type doc \<noteq> Some ''leaf'' then (Inl (PointedNonChunk (r_key v)), c)
             else
               (case d_data doc of
                  None \<Rightarrow> (Inl (NoDataContained (r_key v)), c)
                | Some dat \<Rightarrow>
                    if truthy (passphrase opts) then
                      (case decrypt E (dataString dat) (template (passphrase opts))
                              (orFalse (useDynamicIterationCount opts)) of
                         None \<Rightarrow> (Inl DecryptError, c)
                       | Some plain \<Rightarrow>
                           collectRows E opts onlyCheckExistence vs
                             (cache_set c (Some (r_key v)) (Some plain))
                             (assignVal ret (r_key v) (Payload plain)))
                    else
                      collectRows E opts onlyCheckExistence vs
                        (cache_set c (Some (r_key v)) (Some (dataString dat)))
                        (assignVal ret (r_key v) (Payload (dataString dat))))))"

definition collectChunks :: "'r remote \<Rightarrow> env \<Rightarrow> options \<Rightarrow> string list \<Rightarrow> bool \<Rightarrow> 'r state \<Rightarrow>
    (error + (string \<rightharpoonup> chunkval)) \<times> 'r state" where
  "collectChunks R E opts ids onlyCheckExistence st =
     (case lookupCached ids (hashCaches st) emptyObj [] of
        (c, ret, reqIds) \<Rightarrow>
          if reqIds = [] then (Inr ret, st\<lparr>hashCaches := c\<rparr>)
          else
            (let st1 = st\<lparr>hashCaches := c,
                          trace := trace st @ [AllDocsKeys (\<not> onlyCheckExistence) (unique reqIds)]\<rparr>
             in case allDocsKeys R (remote st) (\<not> onlyCheckExistence) (unique reqIds) of
                  Inl e \<Rightarrow> (Inl e, st1)
                | Inr None \<Rightarrow> (Inl ApiError, st1)
                | Inr (Some rs) \<Rightarrow>
                    (case collectRows E opts onlyCheckExistence rs c ret of
                       (res, c') \<Rightarrow> (res, st1\<lparr>hashCaches := c'\<rparr>))))"

text \<open>A row of an \<open>_all_docs\<close> response hands over a chunk when it has no error and its
  document is a leaf with data. An id is cached when the cache maps it to a string.\<close>

definition delivers :: "row \<Rightarrow> bool" where
  "delivers v =
     (\<not> truthy (r_error v) \<and>
      (case r_doc v of
         Some (Some d) \<Rightarrow> d_type d = Some ''leaf'' \<and> d_data d \<noteq> None
       | _ \<Rightarrow> False))"

definition cached :: "lru \<Rightarrow> string \<Rightarrow> bool" where
  "cached c k = (case map_of (entries c) (Some k) of Some (Some s) \<Rightarrow> True | _ \<Rightarrow> False)"

section \<open>Reading\<close>

definition path2id :: "env \<Rightarrow> options \<Rightarrow> string \<Rightarrow> string" where
  "path2id E opts path = path2id_base E path (obfuscatePassphrase opts)"

definition getByMeta :: "'r remote \<Rightarrow> env \<Rightarrow> options \<Rightarrow> docu \<Rightarrow> 'r state \<Rightarrow>
    (error + docu) \<times> 'r state" where
  "getByMeta R E opts doc st =
     (case collectChunks R E opts (d_children doc) False st of
        (Inl e, st1) \<Rightarrow> (Inl e, st1)
      | (Inr chunks, st1) \<Rightarrow>
          (let dat = map (\<lambda>e. case chunks e of None \<Rightarrow> Flag False | Some v \<Rightarrow> v) (d_children doc)
           in if Flag False \<in> set dat then (Inl (MissingChunks (d_path doc)), st1)
              else (Inr (doc\<lparr>d_data := Some (DArr dat)\<rparr>), st1)))"

text \<open>The test of \<open>getById\<close> on the fetched document.\<close>

definition isMeta :: "docu \<Rightarrow> bool" where
  "isMeta docEntry =
     (d_id docEntry \<noteq> None \<and>
      (d_type docEntry = Some ''plain'' \<or> d_type docEntry = Some ''newnote''))"

text \<open>\<open>getById\<close> returns \<open>false\<close> (here \<open>None\<close>), the metadata entry or the loaded entry.\<close>

definition getById :: "'r remote \<Rightarrow> env \<Rightarrow> options \<Rightarrow> string \<Rightarrow> bool \<Rightarrow> 'r state \<Rightarrow>
    (error + docu option) \<times> 'r state" where
  "getById R E opts i metaOnly st =
     (let st1 = st\<lparr>trace := trace st @ [Get i]\<rparr>
      in case getDoc R (remote st) i of
           Inl e \<Rightarrow> (Inl e, st1)
         | Inr docEntry \<Rightarrow>
             if \<not> isMeta docEntry then (Inr None, st1)
             else
               (case decryptDocumentPath E opts docEntry of
                  Inl e \<Rightarrow> (Inl e, st1)
                | Inr doc \<Rightarrow>
                    if metaOnly then (Inr (Some doc), st1)
                    else
                      (case getByMeta R E opts doc st1 of
                         (Inl e, st2) \<Rightarrow> (Inl e, st2)
                       | (Inr ready, st2) \<Rightarrow> (Inr (Some ready), st2))))"

definition get :: "'r remote \<Rightarrow> env \<Rightarrow> options \<Rightarrow> string \<Rightarrow> bool \<Rightarrow> 'r state \<Rightarrow>
    (error + docu option) \<times> 'r state" where
  "get R E opts path metaOnly st = getById R E opts (path2id E opts path) metaOnly st"

section \<open>Writing\<close>

record FileInfo =
  i_ctime :: int
  i_mtime :: int
  i_size :: int

text \<open>
  The record \<open>chunks\<close> of \<open>put\<close> is also enumerated, so it is the list of its own
  properties, in the order in which \<open>Object.keys\<close> and \<open>Object.entries\<close> read them: first
  the names that are array indices (the decimal numeral, without leading zeros, of a
  number below \<open>2\<^sup>3\<^sup>2 - 1\<close>) in ascending numeric order, then the other names in the
  order of their creation. Assignment to a property: an existing name keeps its place, a
  new one takes its place in that order, and \<open>__proto__\<close> is not assigned.
\<close>

definition decimalValue :: "string \<Rightarrow> nat" where
  "decimalValue k = foldl (\<lambda>n c. 10 * n + (of_char c - 48)) 0 k"

definition arrayIndex :: "string \<Rightarrow> nat option" where
  "arrayIndex k =
     (if k \<noteq> [] \<and> (\<forall>c\<in>set k. c \<in> set ''0123456789'') \<and> (k = ''0'' \<or> hd k \<noteq> CHR ''0'') \<and>
         decimalValue k < 4294967295
      then Some (decimalValue k) else None)"

definition indexBelow :: "nat \<Rightarrow> string \<times> 'v \<Rightarrow> bool" where
  "indexBelow n p = (case arrayIndex (fst p) of None \<Rightarrow> False | Some m \<Rightarrow> m < n)"

definition newProp :: "string \<Rightarrow> 'v \<Rightarrow> (string \<times> 'v) list \<Rightarrow> (string \<times> 'v) list" where
  "newProp k v ps =
     (case arrayIndex k of
        None \<Rightarrow> ps @ [(k, v)]
      | Some n \<Rightarrow> takeWhile (indexBelow n) ps @ [(k, v)] @ dropWhile (indexBelow n) ps)"

definition setProp :: "string \<Rightarrow> 'v \<Rightarrow> (string \<times> 'v) list \<Rightarrow> (string \<times> 'v) list" where
  "setProp k v ps =
     (if k \<in> fst ` set ps then map (\<lambda>p. if fst p = k then (k, v) else p) ps
      else newProp k v ps)"

definition assignProp :: "string \<Rightarrow> 'v \<Rightarrow> (string \<times> 'v) list \<Rightarrow> (string \<times> 'v) list" where
  "assignProp k v ps = (if k = ''__proto__'' then ps else setProp k v ps)"

text \<open>The hash and the id of a piece that is not found in the cache.\<close>

definition hashedPiece :: "env \<Rightarrow> options \<Rightarrow> string \<Rightarrow> string" where
  "hashedPiece E opts piece =
     (if truthy (passphrase opts) then
        ''+'' @ toStringRadix 36
                 (unat (h64 E (piece @ ''-'' @ template (passphrase opts) @ ''-'' @
                                 toStringRadix 10 (js_length piece))))
      else toStringRadix 36 (unat (h64 E (piece @ ''-'' @ toStringRadix 10 (js_length piece)))))"

definition leafId :: "env \<Rightarrow> options \<Rightarrow> string \<Rightarrow> string" where
  "leafId E opts piece = ''h:'' @ hashedPiece E opts piece"

text \<open>The loop of \<open>put\<close> over the pieces: the cache, \<open>chunks\<close> and \<open>children\<close>.\<close>

fun makeChunks :: "env \<Rightarrow> options \<Rightarrow> string list \<Rightarrow>
    lru \<times> (string \<times> string) list \<times> string list \<Rightarrow> lru \<times> (string \<times> string) list \<times> string list" where
  "makeChunks E opts [] acc = acc"
| "makeChunks E opts (piece # ps) (c, chunks, children) =
     (case cache_revGet c piece of
        (cachedLeafId, c') \<Rightarrow>
          if truthy cachedLeafId then
            makeChunks E opts ps
              (c', assignProp (template cachedLeafId) piece chunks, children @ [template cachedLeafId])
          else
            makeChunks E opts ps
              (c', assignProp (leafId E opts piece) piece chunks, children @ [leafId E opts piece]))"

text \<open>\<open>!existedIds[id]\<close>: the value is absent, \<open>false\<close> or the empty string.\<close>

definition notExisted :: "chunkval option \<Rightarrow> bool" where
  "notExisted v =
     (case v of
        None \<Rightarrow> True
      | Some (Flag b) \<Rightarrow> \<not> b
      | Some (Payload s) \<Rightarrow> s = []
      | Some (Inherited n) \<Rightarrow> False)"

definition leafOf :: "env \<Rightarrow> options \<Rightarrow> string \<times> string \<Rightarrow> leafdoc" where
  "leafOf E opts e =
     \<lparr>l_id = fst e,
      l_data =
        (if truthy (passphrase opts) then
           encrypt E (snd e) (template (passphrase opts))
             (orFalse (useDynamicIterationCount opts)) (orFalse (useV1 opts))
         else snd e),
      l_type = ''leaf''\<rparr>"

text \<open>The loop of \<open>put\<close> over the results of \<open>_bulk_docs\<close>. The value \<open>chunks[ret.key]\<close>
  is a piece when \<open>chunks\<close> has the key, and is not a string otherwise.\<close>

fun uploadResults :: "bulk_result list \<Rightarrow> (string \<times> string) list \<Rightarrow> lru \<Rightarrow> (error + unit) \<times> lru" where
  "uploadResults [] chunks c = (Inr (), c)"
| "uploadResults (ret # rets) chunks c =
     (if b_ok ret then
        uploadResults rets chunks
          (cache_set c (b_key ret) (map_of chunks (template (b_key ret))))
      else if b_error ret \<noteq> Some ''conflict'' then (Inl (ChunkUploadingFailed (b_id ret)), c)
      else uploadResults rets chunks c)"

definition put :: "'r remote \<Rightarrow> env \<Rightarrow> options \<Rightarrow> string \<Rightarrow> string list \<Rightarrow> FileInfo \<Rightarrow> string \<Rightarrow>
    'r state \<Rightarrow> (error + bool) \<times> 'r state" where
  "put R E opts path dat info type st =
     (case makeChunks E opts (pieces E opts path dat) (hashCaches st, [], []) of
        (c, chunks, children) \<Rightarrow>
          (case collectChunks R E opts (map fst chunks) True (st\<lparr>hashCaches := c\<rparr>) of
             (Inl e, st1) \<Rightarrow> (Inl e, st1)
           | (Inr existedIds, st1) \<Rightarrow>
               (let chunksToBeUploaded =
                      map (leafOf E opts) (filter (\<lambda>e. notExisted (existedIds (fst e))) chunks);
                    st2 = st1\<lparr>trace := trace st1 @ [BulkDocs chunksToBeUploaded]\<rparr>
                in case bulkDocs R (remote st1) chunksToBeUploaded of
                     (Inl e, r1) \<Rightarrow> (Inl e, st2\<lparr>remote := r1\<rparr>)
                   | (Inr apiRet, r1) \<Rightarrow>
                       (case uploadResults apiRet chunks (hashCaches st2) of
                          (Inl e, c1) \<Rightarrow> (Inl e, st2\<lparr>remote := r1, hashCaches := c1\<rparr>)
                        | (Inr u, c1) \<Rightarrow>
                            (let theEntry =
                                   encryptDocumentPath E opts
                                     \<lparr>d_id = Some (path2id E opts path), d_rev = None,
                                      d_type = Some type, d_path = path, d_children = children,
                                      d_ctime = i_ctime info, d_mtime = i_mtime info,
                                      d_size = i_size info, d_deleted = None, d_data = None\<rparr>
                             in case getById R E opts (path2id E opts path) True
                                       (st2\<lparr>remote := r1, hashCaches := c1\<rparr>) of
                                  (Inl e, st3) \<Rightarrow> (Inl e, st3)
                                | (Inr oldData, st3) \<Rightarrow>
                                    (let entry =
                                           (case oldData of
                                              None \<Rightarrow> theEntry
                                            | Some old \<Rightarrow> theEntry\<lparr>d_rev := d_rev old\<rparr>);
                                         st4 = st3\<lparr>trace :=
                                                 trace st3 @ [Put (path2id E opts path) entry]\<rparr>
                                     in case putDoc R (remote st3) (path2id E opts path) entry of
                                          (Inl e, r2) \<Rightarrow> (Inl e, st4\<lparr>remote := r2\<rparr>)
                                        | (Inr ok, r2) \<Rightarrow> (Inr ok, st4\<lparr>remote := r2\<rparr>)))))))"

text \<open>\<open>delete\<close>; \<open>now\<close> is the value of \<open>Date.now()\<close>.\<close>

definition delete :: "'r remote \<Rightarrow> env \<Rightarrow> options \<Rightarrow> string \<Rightarrow> int \<Rightarrow> 'r state \<Rightarrow>
    (error + bool) \<times> 'r state" where
  "delete R E opts path now st =
     (case getById R E opts (path2id E opts path) True st of
        (Inl e, st1) \<Rightarrow> (Inl e, st1)
      | (Inr None, st1) \<Rightarrow> (Inr True, st1)
      | (Inr (Some oldData), st1) \<Rightarrow>
          if \<not> truthy (d_rev oldData) then (Inr True, st1)
          else if d_deleted oldData = Some True then (Inr True, st1)
          else
            (let newData =
                   encryptDocumentPath E opts
                     \<lparr>d_id = d_id oldData, d_rev = d_rev oldData, d_type = d_type oldData,
                      d_path = d_path oldData, d_children = [], d_ctime = d_ctime oldData,
                      d_mtime = now, d_size = 0, d_deleted = Some True,
                      d_data = Some (case d_data oldData of None \<Rightarrow> DArr [] | Some d \<Rightarrow> d)\<rparr>;
                 st2 = st1\<lparr>trace := trace st1 @ [Put (path2id E opts path) newData]\<rparr>
             in case putDoc R (remote st1) (path2id E opts path) newData of
                  (Inl e, r1) \<Rightarrow> (Inl e, st2\<lparr>remote := r1\<rparr>)
                | (Inr ok, r1) \<Rightarrow> (Inr ok, st2\<lparr>remote := r1\<rparr>)))"

section \<open>Following the change feed\<close>

text \<open>The query of every request of \<open>followUpdates\<close>, for the cursor \<open>s\<close>.\<close>

definition followQuery :: "string \<Rightarrow> changes_query" where
  "followQuery s =
     \<lparr>q_style = ''all_docs'', q_filter = ''replicate/pull'', q_include_docs = True, q_since = s,
      q_feed = ''normal'', q_limit = 25\<rparr>"

text \<open>The body of the loop over the results of a page, with its \<open>try\<close> and \<open>catch\<close>: the
  cursor moves to the \<open>seq\<close> of the element, and for an element with a document the entry
  is decrypted, assembled and handed to the callback. The callback is the caller's; the
  model records its invocations in \<open>delivered\<close>. An error of the decryption or of the
  assembly is logged and ends the work on this element only.\<close>

definition processLine :: "'r remote \<Rightarrow> env \<Rightarrow> options \<Rightarrow> 'r state \<Rightarrow> change \<Rightarrow> 'r state" where
  "processLine R E opts st lineData =
     (let st1 = (case c_seq lineData of None \<Rightarrow> st | Some s \<Rightarrow> st\<lparr>since := s\<rparr>)
      in case c_doc lineData of
           None \<Rightarrow> st1
         | Some docEntry \<Rightarrow>
             (case decryptDocumentPath E opts docEntry of
                Inl e \<Rightarrow> st1
              | Inr docDecrypted \<Rightarrow>
                  (case getByMeta R E opts docDecrypted st1 of
                     (Inl e, st2) \<Rightarrow> st2
                   | (Inr doc, st2) \<Rightarrow>
                       st2\<lparr>delivered := delivered st2 @ [(doc, c_seq lineData)]\<rparr>)))"

text \<open>\<open>ret?.pending ?? 0\<close>.\<close>

definition pendingOf :: "changes_result \<Rightarrow> int" where
  "pendingOf ret = (case pending ret of None \<Rightarrow> 0 | Some p \<Rightarrow> p)"

text \<open>
  The \<open>do ... while (pending > 0)\<close> loop of \<open>followUpdates\<close>. A remote that reports pending
  changes for ever keeps it running, so the loop takes the number of pages it may still
  read and is \<open>None\<close> when that is used up before the loop ends. A rejected request and a
  response whose \<open>results\<close> cannot be iterated are caught by the outer \<open>catch\<close>, which ends
  the loop with the cursor as it is.
\<close>

fun followLoop :: "nat \<Rightarrow> 'r remote \<Rightarrow> env \<Rightarrow> options \<Rightarrow> 'r state \<Rightarrow> 'r state option" where
  "followLoop 0 R E opts st = None"
| "followLoop (Suc n) R E opts st =
     (case changes R (remote st) (followQuery (since st)) of
        Inl e \<Rightarrow> Some (st\<lparr>trace := trace st @ [Changes (followQuery (since st))]\<rparr>)
      | Inr ret \<Rightarrow>
          (case results ret of
             None \<Rightarrow>
               Some (st\<lparr>trace := trace st @ [Changes (followQuery (since st))],
                        pages := pages st @ [ret]\<rparr>)
           | Some rs \<Rightarrow>
               if 0 < pendingOf ret then
                 followLoop n R E opts
                   (foldl (processLine R E opts)
                      (st\<lparr>trace := trace st @ [Changes (followQuery (since st))],
                          pages := pages st @ [ret]\<rparr>) rs)
               else
                 Some (foldl (processLine R E opts)
                         (st\<lparr>trace := trace st @ [Changes (followQuery (since st))],
                             pages := pages st @ [ret]\<rparr>) rs)))"

text \<open>\<open>followUpdates\<close> returns the cursor; the model returns the final state with it.\<close>

definition followUpdates :: "nat \<Rightarrow> 'r remote \<Rightarrow> env \<Rightarrow> options \<Rightarrow> 'r state \<Rightarrow>
    (string \<times> 'r state) option" where
  "followUpdates n R E opts st =
     map_option (\<lambda>st'. (since st', st'))
       (followLoop n R E opts (if since st = [] then st\<lparr>since := ''0''\<rparr> else st))"

text \<open>For the statements about \<open>followUpdates\<close>: the \<open>seq\<close> values of a page in order; a
  feed makes progress under a measure \<open>m\<close> of the cursors when every page that reports
  pending changes moves the cursor to one of smaller measure; the cursor with which
  \<open>followUpdates\<close> starts.\<close>

definition seqsOf :: "changes_result \<Rightarrow> string list" where
  "seqsOf ret = (case results ret of None \<Rightarrow> [] | Some rs \<Rightarrow> List.map_filter c_seq rs)"



definition sinceOf :: "request list \<Rightarrow> string list" where
  "sinceOf reqs = concat (map (\<lambda>r. case r of Changes q \<Rightarrow> [q_since q] | _ \<Rightarrow> []) reqs)"

definition since0 :: "'r state \<Rightarrow> string" where
  "since0 st = (if since st = [] then ''0'' else since st)"

section \<open>Enumerating the entries\<close>

text \<open>The start and end keys of the five \<open>_enumerate\<close> calls of
  \<open>enumerateAllNormalDocs\<close>.\<close>

definition targets :: "(string \<times> string) list" where
  "targets =
     [([], ''h:''),
      (''h:'' @ U10FFFF, ''i:''),
      (''i:'' @ U10FFFF, ''ix:''),
      (''ix:'' @ U10FFFF, ''ps:''),
      (''ps:'' @ U10FFFF, U10FFFF)]"

text \<open>For the statements about the ranges: a key lies in a range when it is between the
  start key and the end key, both included (the remote includes the end key unless told
  otherwise); it is covered when it lies in one of the five ranges; it is reserved when
  it lies strictly between one of the prefixes \<open>h:\<close>, \<open>i:\<close>, \<open>ix:\<close>, \<open>ps:\<close> and that prefix
  followed by \<open>U+10FFFF\<close>.\<close>

definition in_range :: "string \<times> string \<Rightarrow> string \<Rightarrow> bool" where
  "in_range t k = (fst t \<le> k \<and> k \<le> snd t)"

definition covered :: "string \<Rightarrow> bool" where
  "covered k = list_ex (\<lambda>t. in_range t k) targets"

definition reserved :: "string \<Rightarrow> bool" where
  "reserved k = list_ex (\<lambda>p. p < k \<and> k < p @ U10FFFF) [''h:'', ''i:'', ''ix:'', ''ps:'']"

text \<open>What the enumeration needs of the remote's answers to range queries: the keys of
  the rows ascend strictly and lie between the start key and the end key, and a row's
  document has the row's key as its id.\<close>

definition range_sound :: "'r remote \<Rightarrow> 'r \<Rightarrow> bool" where
  "range_sound R r =
     (\<forall>s e l rs. allDocsRange R r s e l = Inr (Some rs) \<longrightarrow>
        sorted_wrt (<) (map r_key rs) \<and>
        (\<forall>v\<in>set rs. s \<le> r_key v \<and> r_key v \<le> e \<and>
           (\<forall>d. r_doc v = Some (Some d) \<longrightarrow> d_id d = Some (r_key v))))"

text \<open>
  \<open>_enumerate\<close> is a generator: it yields entries while it reads pages, and a remote that
  never answers with an empty page keeps it running. The model takes the number of
  pages it may read and returns the entries yielded within them, in order, with how the
  generator stands then: finished, ended by an exception, or still running.
\<close>

datatype outcome = Finished | Thrown error | Running

text \<open>The task of one entry of a page, and the run of the tasks of a page. The source
  hands them to \<open>processAllTasksWithConcurrencyLimit\<close> (\<open>task.ts\<close>, not among the sources),
  five at a time; the model runs them one after the other in the order of the rows. A
  task that throws is logged and skipped.\<close>

definition enumTask :: "'r remote \<Rightarrow> env \<Rightarrow> options \<Rightarrow> bool \<Rightarrow> docu \<Rightarrow> 'r state \<Rightarrow>
    (error + docu) \<times> 'r state" where
  "enumTask R E opts metaOnly e st =
     (case decryptDocumentPath E opts e of
        Inl x \<Rightarrow> (Inl (SomethingHappened (d_path e)), st)
      | Inr w \<Rightarrow>
          if metaOnly then (Inr w, st)
          else
            (case getByMeta R E opts w st of
               (Inl x, st1) \<Rightarrow> (Inl (SomethingHappened (d_path e)), st1)
             | (Inr ready, st1) \<Rightarrow> (Inr ready, st1)))"

fun runTasks :: "'r remote \<Rightarrow> env \<Rightarrow> options \<Rightarrow> bool \<Rightarrow> docu list \<Rightarrow> 'r state \<Rightarrow>
    docu list \<times> 'r state" where
  "runTasks R E opts metaOnly [] st = ([], st)"
| "runTasks R E opts metaOnly (e # es) st =
     (case enumTask R E opts metaOnly e st of
        (Inl err, st1) \<Rightarrow> runTasks R E opts metaOnly es st1
      | (Inr ok, st1) \<Rightarrow>
          (case runTasks R E opts metaOnly es st1 of (vs, st2) \<Rightarrow> (ok # vs, st2)))"

text \<open>The documents of the rows that have one, and the test on their type.\<close>

definition rowDocs :: "row list \<Rightarrow> docu list" where
  "rowDocs rs = concat (map (\<lambda>v. case r_doc v of Some (Some d) \<Rightarrow> [d] | _ \<Rightarrow> []) rs)"

definition isNote :: "docu \<Rightarrow> bool" where
  "isNote docEntry = (d_type docEntry = Some ''plain'' \<or> d_type docEntry = Some ''newnote'')"

text \<open>The loop of \<open>_enumerate\<close>. The request for the next page is sent before the
  entries of the current page are worked on; \<open>"type" in docEntry\<close> throws on a document
  that is \<open>null\<close>.\<close>

fun enumeratePages :: "nat \<Rightarrow> 'r remote \<Rightarrow> env \<Rightarrow> options \<Rightarrow> bool \<Rightarrow> string \<Rightarrow> string \<Rightarrow> 'r state \<Rightarrow>
    docu list \<times> outcome \<times> 'r state" where
  "enumeratePages 0 R E opts metaOnly key endKey st = ([], Running, st)"
| "enumeratePages (Suc n) R E opts metaOnly key endKey st =
     (case allDocsRange R (remote st) key endKey 100 of
        Inl e \<Rightarrow> ([], Thrown e, st)
      | Inr None \<Rightarrow> ([], Finished, st)
      | Inr (Some rs) \<Rightarrow>
          if rs = [] then ([], Finished, st)
          else if \<exists>v\<in>set rs. r_doc v = Some None then
            ([], Thrown TypeError,
             st\<lparr>trace := trace st @ [AllDocsRange (r_key (last rs) @ U10FFFF) endKey 100]\<rparr>)
          else
            (case runTasks R E opts metaOnly (filter isNote (rowDocs rs))
                    (st\<lparr>trace := trace st @ [AllDocsRange (r_key (last rs) @ U10FFFF) endKey 100]\<rparr>) of
               (ys, st1) \<Rightarrow>
                 (case enumeratePages n R E opts metaOnly (r_key (last rs) @ U10FFFF) endKey st1 of
                    (zs, out, st2) \<Rightarrow> (ys @ zs, out, st2))))"

text \<open>\<open>_enumerate\<close>: the first request, then the loop.\<close>

definition enumerateRange :: "nat \<Rightarrow> 'r remote \<Rightarrow> env \<Rightarrow> options \<Rightarrow> bool \<Rightarrow> string \<Rightarrow> string \<Rightarrow> 'r state \<Rightarrow>
    docu list \<times> outcome \<times> 'r state" where
  "enumerateRange n R E opts metaOnly startKey endKey st =
     enumeratePages n R E opts metaOnly startKey endKey
       (st\<lparr>trace := trace st @ [AllDocsRange startKey endKey 100]\<rparr>)"

fun enumerateTargets :: "nat \<Rightarrow> 'r remote \<Rightarrow> env \<Rightarrow> options \<Rightarrow> bool \<Rightarrow> (string \<times> string) list \<Rightarrow>
    'r state \<Rightarrow> docu list \<times> outcome \<times> 'r state" where
  "enumerateTargets n R E opts metaOnly [] st = ([], Finished, st)"
| "enumerateTargets n R E opts metaOnly (t # ts) st =
     (case enumerateRange n R E opts metaOnly (fst t) (snd t) st of
        (ys, Finished, st1) \<Rightarrow>
          (case enumerateTargets n R E opts metaOnly ts st1 of
             (zs, out, st2) \<Rightarrow> (ys @ zs, out, st2))
      | (ys, out, st1) \<Rightarrow> (ys, out, st1))"

definition enumerateAllNormalDocs :: "nat \<Rightarrow> 'r remote \<Rightarrow> env \<Rightarrow> options \<Rightarrow> bool \<Rightarrow> 'r state \<Rightarrow>
    docu list \<times> outcome \<times> 'r state" where
  "enumerateAllNormalDocs n R E opts metaOnly st = enumerateTargets n R E opts metaOnly targets st"

section \<open>The line reader\<close>

text \<open>
  \<open>readLines\<close> turns the byte chunks of a response body into lines. It decodes each chunk
  with \<open>textDecoder.decode(chunk)\<close>, a call without the \<open>stream\<close> option: by the Encoding
  Standard such a call decodes the chunk as a whole input. The decoder below is the
  standard's UTF-8 decoder with replacement; the text it returns is again written in
  UTF-8, so a well-formed sequence is copied and every error becomes the replacement
  character \<open>U+FFFD\<close>. Its state is the number of bytes still needed, the bounds on the
  next byte and the bytes of the sequence read so far. A byte outside the bounds ends the
  sequence with an error and is read again; the end of the input inside a sequence is an
  error.
\<close>

definition replacement :: string where
  "replacement = [CHR 0xEF, CHR 0xBF, CHR 0xBD]"

function utf8_decode :: "nat \<Rightarrow> nat \<Rightarrow> nat \<Rightarrow> string \<Rightarrow> string \<Rightarrow> string" where
  "utf8_decode needed lower upper seen [] = (if needed \<noteq> 0 then replacement else [])"
| "utf8_decode needed lower upper seen (b # bs) =
     (if needed = 0 then
        (if (of_char b :: nat) \<le> 0x7F then b # utf8_decode 0 0x80 0xBF [] bs
         else if 0xC2 \<le> (of_char b :: nat) \<and> (of_char b :: nat) \<le> 0xDF then
           utf8_decode 1 0x80 0xBF [b] bs
         else if 0xE0 \<le> (of_char b :: nat) \<and> (of_char b :: nat) \<le> 0xEF then
           utf8_decode 2 (if (of_char b :: nat) = 0xE0 then 0xA0 else 0x80)
             (if (of_char b :: nat) = 0xED then 0x9F else 0xBF) [b] bs
         else if 0xF0 \<le> (of_char b :: nat) \<and> (of_char b :: nat) \<le> 0xF4 then
           utf8_decode 3 (if (of_char b :: nat) = 0xF0 then 0x90 else 0x80)
             (if (of_char b :: nat) = 0xF4 then 0x8F else 0xBF) [b] bs
         else replacement @ utf8_decode 0 0x80 0xBF [] bs)
      else if (of_char b :: nat) < lower \<or> upper < (of_char b :: nat) then
        replacement @ utf8_decode 0 0x80 0xBF [] (b # bs)
      else if needed = 1 then seen @ [b] @ utf8_decode 0 0x80 0xBF [] bs
      else utf8_decode (needed - 1) 0x80 0xBF (seen @ [b]) bs)"
  by pat_completeness auto
termination
  by (relation "measure (\<lambda>(needed, lower, upper, seen, bs). 2 * length bs + (if needed = 0 then 0 else 1))")
    auto

text \<open>A decoder without \<open>ignoreBOM\<close> drops a byte order mark at the start of its
  input.\<close>

definition BOM :: string where
  "BOM = [CHR 0xEF, CHR 0xBB, CHR 0xBF]"

definition decode :: "string \<Rightarrow> string" where
  "decode chunk = utf8_decode 0 0x80 0xBF [] (if prefix BOM chunk then drop 3 chunk else chunk)"

text \<open>\<open>s.split(d)\<close> for a separator of one character.\<close>

fun split :: "char \<Rightarrow> string \<Rightarrow> string list" where
  "split d [] = [[]]"
| "split d (c # cs) =
     (if c = d then [] # split d cs
      else (case split d cs of [] \<Rightarrow> [[c]] | x # xs \<Rightarrow> (c # x) # xs))"

text \<open>The loop of \<open>readLines\<close> over the chunks that the reader delivers, with the
  buffered \<open>partOfLine\<close>; the result is the list of the lines it yields.\<close>

fun readLinesLoop :: "string \<Rightarrow> string list \<Rightarrow> string list" where
  "readLinesLoop partOfLine [] = []"
| "readLinesLoop partOfLine (chunk # chunks) =
     (case split (CHR 0x0A) (decode chunk) of
        [] \<Rightarrow> readLinesLoop partOfLine chunks
      | [l] \<Rightarrow> readLinesLoop (partOfLine @ l) chunks
      | l # ls \<Rightarrow> (partOfLine @ l) # butlast ls @ readLinesLoop (last ls) chunks)"

definition readLines :: "string list \<Rightarrow> string list" where
  "readLines chunks = readLinesLoop [] chunks"

section \<open>Instances for the examples\<close>

text \<open>
  A small remote for the examples, and for the facts that need a remote which stores
  what it is sent: the documents by id. \<open>GET\<close> of an unknown id answers with an error
  object, which has neither \<open>_id\<close> nor \<open>type\<close>; \<open>_all_docs\<close> with keys answers one row
  for each key, a \<open>not_found\<close> error for an unknown one; \<open>_all_docs\<close> over a range answers
  the rows from \<open>startkey\<close> to \<open>endkey\<close>, both included, in ascending order of the key and
  at most \<open>limit\<close> of them; \<open>_bulk_docs\<close> stores the new leaves and answers \<open>conflict\<close>
  for an id that exists; \<open>PUT\<close> stores a document whose \<open>_rev\<close> is the stored one and
  refuses any other. Its results have an \<open>id\<close> and no \<open>key\<close>, as CouchDB's.
\<close>

type_synonym store = "(string \<times> docu) list"

definition notFound :: docu where
  "notFound =
     \<lparr>d_id = None, d_rev = None, d_type = None, d_path = [], d_children = [], d_ctime = 0,
      d_mtime = 0, d_size = 0, d_deleted = None, d_data = None\<rparr>"

definition storedLeaf :: "leafdoc \<Rightarrow> docu" where
  "storedLeaf l =
     \<lparr>d_id = Some (l_id l), d_rev = Some ''1'', d_type = Some (l_type l), d_path = [],
      d_children = [], d_ctime = 0, d_mtime = 0, d_size = 0, d_deleted = None,
      d_data = Some (DStr (l_data l))\<rparr>"

definition rowOf :: "store \<Rightarrow> bool \<Rightarrow> string \<Rightarrow> row" where
  "rowOf db include_docs k =
     (case map_of db k of
        None \<Rightarrow> \<lparr>r_key = k, r_error = Some ''not_found'', r_doc = None\<rparr>
      | Some d \<Rightarrow> \<lparr>r_key = k, r_error = None, r_doc = (if include_docs then Some (Some d) else None)\<rparr>)"

fun storeLeaves :: "store \<Rightarrow> leafdoc list \<Rightarrow> bulk_result list \<times> store" where
  "storeLeaves db [] = ([], db)"
| "storeLeaves db (l # ls) =
     (case map_of db (l_id l) of
        None \<Rightarrow>
          (case storeLeaves ((l_id l, storedLeaf l) # db) ls of
             (rs, db') \<Rightarrow>
               (\<lparr>b_ok = True, b_id = Some (l_id l), b_key = None, b_error = None\<rparr> # rs, db'))
      | Some d \<Rightarrow>
          (case storeLeaves db ls of
             (rs, db') \<Rightarrow>
               (\<lparr>b_ok = False, b_id = Some (l_id l), b_key = None, b_error = Some ''conflict''\<rparr> # rs,
                db')))"

definition storeDoc :: "store \<Rightarrow> string \<Rightarrow> docu \<Rightarrow> (error + bool) \<times> store" where
  "storeDoc db i d =
     (if d_rev d = (case map_of db i of None \<Rightarrow> None | Some old \<Rightarrow> d_rev old)
      then (Inr True,
            (i, d\<lparr>d_rev := Some (case d_rev d of None \<Rightarrow> ''1'' | Some r \<Rightarrow> r @ ''+'')\<rparr>) #
            filter (\<lambda>e. fst e \<noteq> i) db)
      else (Inr False, db))"

definition couch :: "store remote" where
  "couch =
     \<lparr>getDoc = (\<lambda>db i. Inr (case map_of db i of None \<Rightarrow> notFound | Some d \<Rightarrow> d)),
      allDocsKeys = (\<lambda>db include_docs keys. Inr (Some (map (rowOf db include_docs) keys))),
      allDocsRange = (\<lambda>db startkey endkey limit.
        Inr (Some (map (\<lambda>e. rowOf db True (fst e))
          (take limit (sort_key fst (filter (\<lambda>e. startkey \<le> fst e \<and> fst e \<le> endkey) db)))))),
      bulkDocs = (\<lambda>db docs. case storeLeaves db docs of (rs, db') \<Rightarrow> (Inr rs, db')),
      putDoc = storeDoc,
      changes = (\<lambda>db q. Inr \<lparr>pending = Some 0, results = Some []\<rparr>)\<rparr>"

text \<open>A cipher for the examples: the ciphertext is the passphrase, every byte of it
  marked with a \<open>1\<close>, then a \<open>0\<close>, then the plaintext. It keeps nothing secret and meets
  \<open>crypto_spec\<close>.\<close>

fun toy_header :: "string \<Rightarrow> string" where
  "toy_header [] = ''0''"
| "toy_header (a # k) = CHR ''1'' # a # toy_header k"

fun toy_strip :: "string \<Rightarrow> string \<Rightarrow> string option" where
  "toy_strip [] (c # cs) = (if c = CHR ''0'' then Some cs else None)"
| "toy_strip (a # k) (c1 # c2 # cs) = (if c1 = CHR ''1'' \<and> c2 = a then toy_strip k cs else None)"
| "toy_strip k cs = None"

definition toy_env :: env where
  "toy_env =
     \<lparr>h64 = (\<lambda>s. of_nat (length s)),
      encrypt = (\<lambda>x k d v. toy_header k @ x),
      decrypt = (\<lambda>c k d. toy_strip k c),
      path2id_base = (\<lambda>p k. p),
      pieces = (\<lambda>opts p data. data)\<rparr>"

text \<open>Options, a cache and a metadata entry for the examples.\<close>

definition ex_opts :: options where
  "ex_opts =
     \<lparr>passphrase = None, obfuscatePassphrase = None, useDynamicIterationCount = None,
      customChunkSize = None, minimumChunkSize = None, useV1 = None\<rparr>"

definition pw_opts :: options where
  "pw_opts = ex_opts\<lparr>passphrase := Some ''p''\<rparr>"

definition both_opts :: options where
  "both_opts = ex_opts\<lparr>passphrase := Some ''p'', obfuscatePassphrase := Some ''p''\<rparr>"

definition ex_cache :: lru where
  "ex_cache = \<lparr>entries = [], maxCache = 300, maxCachedLength = 50000000\<rparr>"

definition ex_meta :: docu where
  "ex_meta =
     \<lparr>d_id = Some ''a.md'', d_rev = Some ''1-x'', d_type = Some ''plain'', d_path = ''a.md'',
      d_children = [''h:1''], d_ctime = 1, d_mtime = 2, d_size = 5, d_deleted = None,
      d_data = None\<rparr>"

definition init :: "store \<Rightarrow> store state" where
  "init db = \<lparr>hashCaches = ex_cache, since = [], remote = db, trace = [], delivered = [], pages = []\<rparr>"

definition ex_info :: FileInfo where
  "ex_info = \<lparr>i_ctime = 1, i_mtime = 2, i_size = 5\<rparr>"

text \<open>The same remote, answering every bulk upload with the given results and storing
  nothing of it; the state after a first \<open>put\<close> of a one-piece file to the empty remote;
  the state after a \<open>delete\<close> of that file at time 9; the entry \<open>ex_meta\<close> with the one
  child \<open>__proto__\<close>; the entry that \<open>delete\<close> writes over
  \<open>ex_meta\<close> at time 9.\<close>

definition couch_answering :: "bulk_result list \<Rightarrow> store remote" where
  "couch_answering rs = couch\<lparr>bulkDocs := (\<lambda>db docs. (Inr rs, db))\<rparr>"

definition after_put :: "options \<Rightarrow> store state" where
  "after_put opts = snd (put couch toy_env opts ''a.md'' [''Hello''] ex_info ''plain'' (init []))"

definition after_delete :: "options \<Rightarrow> store state" where
  "after_delete opts = snd (delete couch toy_env opts ''a.md'' 9 (after_put opts))"

definition proto_meta :: docu where
  "proto_meta = ex_meta\<lparr>d_children := [''__proto__'']\<rparr>"

definition ex_tombstone :: docu where
  "ex_tombstone =
     ex_meta\<lparr>d_children := [], d_mtime := 9, d_size := 0, d_deleted := Some True,
       d_data := Some (DArr [])\<rparr>"

text \<open>A hash for the examples that depends on every byte of its input: the sum of the
  bytes. A remote with one leaf whose id was not made by \<open>put\<close>, holding the text \<open>Hello\<close>
  encrypted under the passphrase \<open>p\<close>; an entry with that leaf as its child; the state
  after reading that entry.\<close>

definition sum_env :: env where
  "sum_env = toy_env\<lparr>h64 := (\<lambda>s. of_nat (sum_list (map of_char s)))\<rparr>"

definition legacy_db :: store where
  "legacy_db =
     [(''h:legacy'', storedLeaf \<lparr>l_id = ''h:legacy'', l_data = ''1p0Hello'', l_type = ''leaf''\<rparr>)]"

definition legacy_meta :: docu where
  "legacy_meta = ex_meta\<lparr>d_children := [''h:legacy'']\<rparr>"

definition after_read :: "store state" where
  "after_read = snd (getByMeta couch toy_env pw_opts legacy_meta (init legacy_db))"

text \<open>An entry without chunks, a remote state with two notes, an internal file and a
  leaf, and a remote whose change feed has three changes on two pages.\<close>

definition ex_note :: "string \<Rightarrow> docu" where
  "ex_note i =
     \<lparr>d_id = Some i, d_rev = Some ''1'', d_type = Some ''plain'', d_path = i, d_children = [],
      d_ctime = 1, d_mtime = 2, d_size = 0, d_deleted = None, d_data = None\<rparr>"

definition ex_db :: store where
  "ex_db =
     [(''z.md'', ex_note ''z.md''), (''i:x'', ex_note ''i:x''),
      (''h:7'', storedLeaf \<lparr>l_id = ''h:7'', l_data = ''Hello'', l_type = ''leaf''\<rparr>),
      (''a.md'', ex_note ''a.md'')]"

definition ex_feed :: "store remote" where
  "ex_feed =
     couch\<lparr>changes := (\<lambda>db q.
       if q_since q = ''0'' then
         Inr \<lparr>pending = Some 1,
              results = Some [\<lparr>c_seq = Some ''1'', c_doc = Some (ex_note ''a.md'')\<rparr>,
                              \<lparr>c_seq = Some ''2'', c_doc = None\<rparr>]\<rparr>
       else if q_since q = ''2'' then
         Inr \<lparr>pending = Some 0, results = Some [\<lparr>c_seq = Some ''3'', c_doc = None\<rparr>]\<rparr>
       else Inr \<lparr>pending = Some 0, results = Some []\<rparr>)\<rparr>"

text \<open>A line of a change feed with a two-byte character, and the same line with the
  character lost.\<close>

definition ex_line :: string where
  \<open>ex_line = ''{"a":"'' @ [CHR 0xC3, CHR 0xA9] @ ''"}''\<close>

definition ex_line_damaged :: string where
  \<open>ex_line_damaged = ''{"a":"'' @ replacement @ replacement @ ''"}''\<close>

section \<open>Facts\<close>

text \<open>The equations that evaluate the examples.\<close>

lemmas ev = put_def get_def getById_def getByMeta_def collectChunks_def couch_def toy_env_def
  ex_opts_def pw_opts_def both_opts_def ex_cache_def init_def ex_info_def path2id_def cache_revGet_def
  cache_get_def cache_set_def
  leafId_def hashedPiece_def truthy_def template_def orFalse_def unique_def notExisted_def leafOf_def
  rowOf_def storedLeaf_def storeDoc_def notFound_def isMeta_def encryptDocumentPath_def decryptDocumentPath_def
  toStringRadix.simps js_length_def continuation_def digit36_def valueLength_def cachedLength_def
  after_put_def cached_def couch_answering_def delete_def ex_meta_def ex_tombstone_def
  enumerateAllNormalDocs_def enumerateRange_def targets_def rowDocs_def isNote_def enumTask_def
  ex_db_def ex_note_def U10FFFF_def less_char_def followUpdates_def followQuery_def
  processLine_def pendingOf_def seqsOf_def ex_feed_def since0_def List.map_filter_simps
  emptyObj_def assignVal_def assignProp_def inherited_def protoNames_def
  setProp_def newProp_def indexBelow_def arrayIndex_def decimalValue_def


lemma toy_header_nonempty: "toy_header k \<noteq> []"
  by (cases k) auto

lemma toy_strip_iff: "toy_strip k c = Some x \<longleftrightarrow> c = toy_header k @ x"
proof (induction k arbitrary: c)
  case Nil
  then show ?case by (cases c) auto
next
  case (Cons a k)
  show ?case
  proof (cases c)
    case Nil
    then show ?thesis by simp
  next
    case c1: (Cons c1 cs)
    show ?thesis
    proof (cases cs)
      case Nil
      with c1 show ?thesis by (simp add: toy_header_nonempty)
    next
      case (Cons c2 cs')
      with c1 Cons.IH [of cs'] show ?thesis by auto
    qed
  qed
qed

lemma toy_header_inj: "toy_header k @ x = toy_header k' @ y \<Longrightarrow> k = k'"
proof (induction k arbitrary: k')
  case Nil
  then show ?case by (cases k') auto
next
  case (Cons a k)
  then show ?case by (cases k') auto
qed

lemma toy_strip_other: "k \<noteq> k' \<Longrightarrow> toy_strip k' (toy_header k @ x) = None"
proof (cases "toy_strip k' (toy_header k @ x)")
  case None
  then show ?thesis by simp
next
  case (Some y)
  assume "k \<noteq> k'"
  moreover from Some have "toy_header k @ x = toy_header k' @ y"
    by (simp add: toy_strip_iff)
  ultimately show ?thesis using toy_header_inj by blast
qed

lemma toy_crypto_spec: "crypto_spec toy_env"
  unfolding crypto_spec_def toy_env_def
  by (auto simp: toy_strip_iff toy_strip_other toy_header_nonempty)

subsection \<open>Path encryption\<close>

lemma crypto_neq: "crypto_spec E \<Longrightarrow> encrypt E x k d v \<noteq> x"
  unfolding crypto_spec_def by (metis less_irrefl)

lemma crypto_not_fix: "crypto_spec E \<Longrightarrow> decrypt E x k d \<noteq> Some x"
  unfolding crypto_spec_def by (metis less_irrefl)

text \<open>
  C10. \<open>encryptDocumentPath\<close> encrypts the path under \<open>obfuscatePassphrase\<close> and leaves
  it as it is when that option is unset (\<open>undefined\<close> or empty);
  \<open>decryptDocumentPath\<close> decrypts under \<open>passphrase\<close>, throws when \<open>decrypt\<close> throws, and
  leaves the path as it is when that option is unset. For a cipher that meets
  \<open>crypto_spec\<close>, decrypting the path of an encrypted entry gives the entry's path back
  exactly when both options are unset or both hold the same passphrase.
\<close>

theorem path_key_asymmetry:
  assumes "crypto_spec E"
  shows
    "d_path (encryptDocumentPath E opts e) =
       (if truthy (obfuscatePassphrase opts)
        then encrypt E (d_path e) (template (obfuscatePassphrase opts))
               (orFalse (useDynamicIterationCount opts)) (orFalse (useV1 opts))
        else d_path e) \<and>
     decryptDocumentPath E opts e =
       (if truthy (passphrase opts)
        then (case decrypt E (d_path e) (template (passphrase opts))
                     (orFalse (useDynamicIterationCount opts)) of
                None \<Rightarrow> Inl DecryptError
              | Some p \<Rightarrow> Inr (e\<lparr>d_path := p\<rparr>))
        else Inr e) \<and>
     ((\<exists>e'. decryptDocumentPath E opts (encryptDocumentPath E opts e) = Inr e' \<and>
            d_path e' = d_path e) \<longleftrightarrow>
      (\<not> truthy (obfuscatePassphrase opts) \<and> \<not> truthy (passphrase opts)) \<or>
      (truthy (obfuscatePassphrase opts) \<and> obfuscatePassphrase opts = passphrase opts))"
proof -
  have rt: "\<And>x k d v. decrypt E (encrypt E x k d v) k d = Some x"
    and other: "\<And>x k k' d d' v. k \<noteq> k' \<Longrightarrow> decrypt E (encrypt E x k d v) k' d' = None"
    using assms unfolding crypto_spec_def by blast+
  note neq = crypto_neq [OF assms] and nofix = crypto_not_fix [OF assms]
  have a: "d_path (encryptDocumentPath E opts e) =
       (if truthy (obfuscatePassphrase opts)
        then encrypt E (d_path e) (template (obfuscatePassphrase opts))
               (orFalse (useDynamicIterationCount opts)) (orFalse (useV1 opts))
        else d_path e)"
    by (simp add: encryptDocumentPath_def truthy_def template_def split: option.splits)
  have b: "decryptDocumentPath E opts e =
       (if truthy (passphrase opts)
        then (case decrypt E (d_path e) (template (passphrase opts))
                     (orFalse (useDynamicIterationCount opts)) of
                None \<Rightarrow> Inl DecryptError
              | Some p \<Rightarrow> Inr (e\<lparr>d_path := p\<rparr>))
        else Inr e)" for e
    by (simp add: decryptDocumentPath_def truthy_def template_def split: option.splits)
  have c: "(\<exists>e'. decryptDocumentPath E opts (encryptDocumentPath E opts e) = Inr e' \<and>
            d_path e' = d_path e) \<longleftrightarrow>
      (\<not> truthy (obfuscatePassphrase opts) \<and> \<not> truthy (passphrase opts)) \<or>
      (truthy (obfuscatePassphrase opts) \<and> obfuscatePassphrase opts = passphrase opts)"
  proof (cases "truthy (obfuscatePassphrase opts)")
    case obf: True
    show ?thesis
    proof (cases "truthy (passphrase opts)")
      case True
      show ?thesis
      proof (cases "obfuscatePassphrase opts = passphrase opts")
        case True
        with obf show ?thesis
          by (simp add: b a rt encryptDocumentPath_def truthy_def template_def split: option.splits)
      next
        case False
        with obf True have "template (obfuscatePassphrase opts) \<noteq> template (passphrase opts)"
          by (auto simp: truthy_def template_def split: option.splits)
        with obf True False show ?thesis
          by (simp add: b a other)
      qed
    next
      case False
      with obf show ?thesis
        by (auto simp: b a neq)
    qed
  next
    case obf: False
    then have enc: "encryptDocumentPath E opts e = e"
      by (simp add: encryptDocumentPath_def truthy_def split: option.splits)
    show ?thesis
    proof (cases "truthy (passphrase opts)")
      case True
      with obf show ?thesis
        by (auto simp: enc b nofix split: option.splits)
    next
      case False
      with obf show ?thesis by (simp add: enc b)
    qed
  qed
  from a b c show ?thesis by blast
qed

theorem path_key_asymmetry_witness:
  "(\<exists>e'. decryptDocumentPath toy_env both_opts (encryptDocumentPath toy_env both_opts ex_meta) =
            Inr e' \<and> d_path e' = d_path ex_meta) \<and>
   \<not> (\<exists>e'. decryptDocumentPath toy_env pw_opts (encryptDocumentPath toy_env pw_opts ex_meta) =
            Inr e' \<and> d_path e' = d_path ex_meta)"
  using path_key_asymmetry [OF toy_crypto_spec, of both_opts ex_meta]
    path_key_asymmetry [OF toy_crypto_spec, of pw_opts ex_meta]
  by (simp add: both_opts_def pw_opts_def ex_opts_def truthy_def)

subsection \<open>Leaf ids\<close>

lemma toStringRadix36_nonempty: "toStringRadix b n \<noteq> []"
  by (subst toStringRadix.simps) simp

lemma digit36_alphabet: "d < 36 \<Longrightarrow> digit36 d \<in> set ''0123456789abcdefghijklmnopqrstuvwxyz''"
  unfolding digit36_def by (rule nth_mem) simp

lemma toStringRadix36_alphabet:
  "set (toStringRadix 36 n) \<subseteq> set ''0123456789abcdefghijklmnopqrstuvwxyz''"
proof (induction n rule: less_induct)
  case (less n)
  show ?case
  proof (cases "n < 36")
    case True
    then show ?thesis
      using digit36_alphabet [of n] by (subst toStringRadix.simps) simp
  next
    case False
    then have "n div 36 < n" by simp
    from less.IH [OF this] digit36_alphabet [of "n mod 36"] False show ?thesis
      by (subst toStringRadix.simps) simp
  qed
qed

lemma toStringRadix36_no_plus: "\<not> prefix ''+'' (toStringRadix 36 n)"
proof
  assume "prefix ''+'' (toStringRadix 36 n)"
  then have "CHR ''+'' \<in> set (toStringRadix 36 n)"
    by (auto simp: prefix_def)
  with toStringRadix36_alphabet [of n] show False by auto
qed

lemma leafId_prefix: "prefix ''h:'' (leafId E opts p)"
  by (simp add: leafId_def)

lemma leafId_plus: "prefix ''h:+'' (leafId E opts p) \<longleftrightarrow> truthy (passphrase opts)"
  using toStringRadix36_no_plus by (simp add: leafId_def hashedPiece_def)

lemma find_filter_hd: "find P xs = (case filter P xs of [] \<Rightarrow> None | x # _ \<Rightarrow> Some x)"
  by (induction xs) auto

lemma find_rev_remove1: "\<not> P e \<Longrightarrow> find P (rev (remove1 e es)) = find P (rev es)"
proof -
  assume "\<not> P e"
  then have "filter P (remove1 e es) = filter P es"
    by (induction es) auto
  then show ?thesis by (simp add: find_filter_hd rev_filter [symmetric])
qed

text \<open>A lookup by plaintext changes the order of the cache, not what a later lookup by
  plaintext finds.\<close>

lemma cache_revGet_stable:
  "fst (cache_revGet (snd (cache_revGet c q)) p) = fst (cache_revGet c p)"
proof (cases "find (\<lambda>e. snd e = Some q) (rev (entries c))")
  case None
  then show ?thesis by (simp add: cache_revGet_def)
next
  case (Some e)
  then have e: "snd e = Some q" by (auto simp: find_Some_iff)
  show ?thesis
  proof (cases "p = q")
    case True
    with Some e show ?thesis by (simp add: cache_revGet_def)
  next
    case False
    with e have "\<not> (\<lambda>x. snd x = Some p) e" by simp
    from find_rev_remove1 [of "\<lambda>x. snd x = Some p" e "entries c", OF this] Some e False
    show ?thesis by (simp add: cache_revGet_def split: option.splits)
  qed
qed

lemma makeChunks_children:
  "snd (snd (makeChunks E opts ps (c, chunks, children))) =
     children @ map (\<lambda>p. if truthy (fst (cache_revGet c p)) then template (fst (cache_revGet c p))
                          else leafId E opts p) ps"
proof (induction ps arbitrary: c chunks children)
  case Nil
  then show ?case by simp
next
  case (Cons q ps)
  obtain i c' where r: "cache_revGet c q = (i, c')" by (cases "cache_revGet c q")
  have st: "fst (cache_revGet c' p) = fst (cache_revGet c p)" for p
    using cache_revGet_stable [of c q p] r by simp
  from r Cons [of c'] show ?case by (simp add: st)
qed

lemma js_length_ascii: "\<forall>b\<in>set p. (of_char b :: nat) < 0x80 \<Longrightarrow> js_length p = length p"
  by (induction p) (auto simp: js_length_def continuation_def)

text \<open>
  C2. The ids that the loop of \<open>put\<close> appends to \<open>children\<close> are, piece by piece and in
  order: for a piece that a lookup by plaintext finds in the cache under a non-empty id,
  that id; for any other piece, \<open>"h:+"\<close> followed by the base-36 rendering of
  \<open>xxhash64(piece + "-" + passphrase + "-" + piece.length)\<close> when a passphrase is set, and
  \<open>"h:"\<close> followed by the base-36 rendering of \<open>xxhash64(piece + "-" + piece.length)\<close> when
  none is set (\<open>undefined\<close> or empty). Every id computed in this way starts with \<open>"h:"\<close>, and
  it starts with \<open>"h:+"\<close> exactly when a passphrase is set. The length is that of the
  JavaScript string, in UTF-16 code units: the number of bytes of an ASCII piece, 1 for
  \<open>U+00E9\<close> (two bytes in UTF-8) and 2 for \<open>U+1F600\<close> (four bytes).
\<close>

theorem leaf_id_derivation:
  "snd (snd (makeChunks E opts ps (c, [], []))) =
     map (\<lambda>p. if truthy (fst (cache_revGet c p)) then template (fst (cache_revGet c p))
              else if truthy (passphrase opts)
              then ''h:+'' @ toStringRadix 36 (unat (h64 E (p @ ''-'' @ template (passphrase opts) @
                              ''-'' @ toStringRadix 10 (js_length p))))
              else ''h:'' @ toStringRadix 36 (unat (h64 E (p @ ''-'' @
                              toStringRadix 10 (js_length p))))) ps \<and>
   (\<forall>i<length ps. \<not> truthy (fst (cache_revGet c (ps ! i))) \<longrightarrow>
      prefix ''h:'' (snd (snd (makeChunks E opts ps (c, [], []))) ! i) \<and>
      (prefix ''h:+'' (snd (snd (makeChunks E opts ps (c, [], []))) ! i) \<longleftrightarrow>
         truthy (passphrase opts))) \<and>
   (\<forall>p. (\<forall>b\<in>set p. (of_char b :: nat) < 0x80) \<longrightarrow> js_length p = length p) \<and>
   js_length [CHR 0xC3, CHR 0xA9] = 1 \<and>
   js_length [CHR 0xF0, CHR 0x9F, CHR 0x98, CHR 0x80] = 2"
proof -
  have ch: "snd (snd (makeChunks E opts ps (c, [], []))) =
      map (\<lambda>p. if truthy (fst (cache_revGet c p)) then template (fst (cache_revGet c p))
               else leafId E opts p) ps"
    using makeChunks_children [of E opts ps c "[]" "[]"] by simp
  have a: "snd (snd (makeChunks E opts ps (c, [], []))) =
     map (\<lambda>p. if truthy (fst (cache_revGet c p)) then template (fst (cache_revGet c p))
              else if truthy (passphrase opts)
              then ''h:+'' @ toStringRadix 36 (unat (h64 E (p @ ''-'' @ template (passphrase opts) @
                              ''-'' @ toStringRadix 10 (js_length p))))
              else ''h:'' @ toStringRadix 36 (unat (h64 E (p @ ''-'' @
                              toStringRadix 10 (js_length p))))) ps"
    unfolding ch by (simp add: leafId_def hashedPiece_def)
  have b: "\<forall>i<length ps. \<not> truthy (fst (cache_revGet c (ps ! i))) \<longrightarrow>
      prefix ''h:'' (snd (snd (makeChunks E opts ps (c, [], []))) ! i) \<and>
      (prefix ''h:+'' (snd (snd (makeChunks E opts ps (c, [], []))) ! i) \<longleftrightarrow>
         truthy (passphrase opts))"
    unfolding ch using leafId_prefix leafId_plus by simp
  have d: "\<forall>p. (\<forall>b\<in>set p. (of_char b :: nat) < 0x80) \<longrightarrow> js_length p = length p"
    using js_length_ascii by blast
  have e: "js_length [CHR 0xC3, CHR 0xA9] = 1 \<and>
      js_length [CHR 0xF0, CHR 0x9F, CHR 0x98, CHR 0x80] = 2"
    by (simp add: js_length_def continuation_def)
  from a b d e show ?thesis by blast
qed

theorem leaf_id_derivation_witness:
  "snd (snd (makeChunks sum_env pw_opts [''Hello'', ''w'' @ [CHR 0xC3, CHR 0xB6] @ ''rld'', ''x'']
               (hashCaches after_read, [], []))) = [''h:legacy'', ''h:+tt'', ''h:+ab''] \<and>
   snd (snd (makeChunks sum_env ex_opts [''Hello'', ''w'' @ [CHR 0xC3, CHR 0xB6] @ ''rld'', ''x'']
               (ex_cache, [], []))) = [''h:gm'', ''h:pg'', ''h:5y'']"
  using leaf_id_derivation [of sum_env pw_opts "[''Hello'', ''w'' @ [CHR 0xC3, CHR 0xB6] @ ''rld'', ''x'']"
      "hashCaches after_read"]
    leaf_id_derivation [of sum_env ex_opts "[''Hello'', ''w'' @ [CHR 0xC3, CHR 0xB6] @ ''rld'', ''x'']"
      ex_cache]
  by (simp add: ev sum_env_def legacy_db_def legacy_meta_def after_read_def)

text \<open>
  A piece that the cache holds: with the passphrase \<open>p\<close> set, the remote holds a leaf
  \<open>h:legacy\<close> with the text \<open>Hello\<close>, written by another client. Reading an entry with that
  child puts the leaf into the cache, and a \<open>put\<close> of a file with the piece \<open>Hello\<close> then
  records the child \<open>h:legacy\<close>, which is not the id that the hash of the piece gives and
  does not start with \<open>"h:+"\<close>.
\<close>

theorem leaf_id_derivation_counterexample:
  "fst (getByMeta couch toy_env pw_opts legacy_meta (init legacy_db)) =
     Inr (legacy_meta\<lparr>d_data := Some (DArr [Payload ''Hello''])\<rparr>) \<and>
   fst (put couch toy_env pw_opts ''b.md'' [''Hello''] ex_info ''plain'' after_read) = Inr True \<and>
   last (trace (snd (put couch toy_env pw_opts ''b.md'' [''Hello''] ex_info ''plain'' after_read))) =
     Put ''b.md''
       \<lparr>d_id = Some ''b.md'', d_rev = None, d_type = Some ''plain'', d_path = ''b.md'',
        d_children = [''h:legacy''], d_ctime = 1, d_mtime = 2, d_size = 5, d_deleted = None,
        d_data = None\<rparr> \<and>
   truthy (passphrase pw_opts) \<and>
   ''h:legacy'' \<noteq>
     ''h:+'' @ toStringRadix 36 (unat (h64 toy_env (''Hello'' @ ''-'' @ template (passphrase pw_opts) @
                 ''-'' @ toStringRadix 10 (js_length ''Hello'')))) \<and>
   \<not> prefix ''h:+'' ''h:legacy''"
  by (simp add: ev legacy_db_def legacy_meta_def after_read_def)

subsection \<open>Line framing\<close>

lemma split_nonempty: "split d s \<noteq> []"
  by (induction s) (auto split: list.splits)

lemma split_append:
  "split d (xs @ ys) = butlast (split d xs) @ [last (split d xs) @ hd (split d ys)] @ tl (split d ys)"
proof (induction xs)
  case Nil
  then show ?case using split_nonempty [of d ys] by (cases "split d ys") auto
next
  case (Cons a xs)
  then show ?case
    using split_nonempty [of d xs] split_nonempty [of d ys] split_nonempty [of d "xs @ ys"]
    by (auto split: list.splits)
qed

lemma split_no_delim: "d \<notin> set s \<Longrightarrow> split d s = [s]"
  by (induction s) auto

lemma split_elems: "l \<in> set (split d s) \<Longrightarrow> d \<notin> set l"
  by (induction s arbitrary: l) (auto split: if_splits list.splits)

lemma split_single: "split d s = [l] \<Longrightarrow> l = s"
proof (induction s arbitrary: l)
  case Nil
  then show ?case by simp
next
  case (Cons a s)
  then show ?case
    using split_nonempty [of d s] by (auto split: if_splits list.splits)
qed

lemma split_line: "d \<notin> set l \<Longrightarrow> split d (l @ d # rest) = l # split d rest"
  by (induction l) auto

text \<open>When every chunk is by itself well-formed (it decodes to itself), the reader
  yields the complete lines of the concatenated chunks, wherever the boundaries are.\<close>

lemma readLinesLoop_framing:
  assumes "\<forall>c\<in>set chunks. decode c = c" and "CHR 0x0A \<notin> set part"
  shows "readLinesLoop part chunks = butlast (split (CHR 0x0A) (part @ concat chunks))"
  using assms
proof (induction chunks arbitrary: part)
  case Nil
  then show ?case by (simp add: split_no_delim)
next
  case (Cons c cs)
  let ?d = "CHR 0x0A"
  have dec: "decode c = c" using Cons.prems by simp
  have rest: "\<forall>c\<in>set cs. decode c = c" using Cons.prems by simp
  have part: "split ?d part = [part]" using Cons.prems by (simp add: split_no_delim)
  have whole: "split ?d (part @ c @ concat cs) =
      [part @ hd (split ?d (c @ concat cs))] @ tl (split ?d (c @ concat cs))"
    using split_append [of ?d part "c @ concat cs"] part by simp
  show ?case
  proof (cases "split ?d c")
    case Nil
    then show ?thesis using split_nonempty by blast
  next
    case c1: (Cons l ls)
    show ?thesis
    proof (cases ls)
      case Nil
      with c1 have lc: "l = c" by (simp add: split_single)
      with c1 Nil have "?d \<notin> set c" using split_elems [of l ?d c] by simp
      with Cons.prems have "?d \<notin> set (part @ c)" by simp
      from Cons.IH [OF rest this] c1 Nil lc dec show ?thesis by simp
    next
      case (Cons l2 ls2)
      with c1 have lst: "last (split ?d c) = last ls" and bl: "butlast (split ?d c) = l # butlast ls"
        by simp_all
      have "last ls \<in> set (split ?d c)" using c1 Cons by simp
      then have nl: "?d \<notin> set (last ls)" by (rule split_elems)
      have sc: "split ?d (c @ concat cs) =
          l # butlast ls @ [last ls @ hd (split ?d (concat cs))] @ tl (split ?d (concat cs))"
        using split_append [of ?d c "concat cs"] lst bl by simp
      have sl: "split ?d (last ls @ concat cs) =
          [last ls @ hd (split ?d (concat cs))] @ tl (split ?d (concat cs))"
        using split_append [of ?d "last ls" "concat cs"] nl by (simp add: split_no_delim)
      have "split ?d (part @ c @ concat cs) = (part @ l) # butlast ls @ split ?d (last ls @ concat cs)"
        using whole sc sl by simp
      then have "butlast (split ?d (part @ c @ concat cs)) =
          (part @ l) # butlast ls @ butlast (split ?d (last ls @ concat cs))"
        using split_nonempty [of ?d "last ls @ concat cs"] by (simp add: butlast_append)
      with Cons.IH [OF rest nl] c1 Cons dec show ?thesis by simp
    qed
  qed
qed

lemma utf8_decode_ascii:
  "\<forall>b\<in>set bs. (of_char b :: nat) < 0x80 \<Longrightarrow> utf8_decode 0 0x80 0xBF [] bs = bs"
  by (induction bs) auto

lemma decode_ascii:
  assumes "\<forall>b\<in>set c. (of_char b :: nat) < 0x80"
  shows "decode c = c"
proof -
  have "\<not> prefix BOM c"
  proof
    assume "prefix BOM c"
    then have "CHR 0xEF \<in> set c" by (auto simp: prefix_def BOM_def)
    with assms show False by auto
  qed
  with assms show ?thesis by (simp add: decode_def utf8_decode_ascii)
qed

lemma lines_of_stream:
  "\<forall>l\<in>set ls. d \<notin> set l \<Longrightarrow> butlast (split d (concat (map (\<lambda>l. l @ [d]) ls))) = ls"
proof (induction ls)
  case Nil
  then show ?case by simp
next
  case (Cons l ls)
  then show ?case using split_nonempty [of d "concat (map (\<lambda>l. l @ [d]) ls)"]
    by (simp add: split_line)
qed

lemma readLines_ascii:
  assumes "concat chunks = concat (map (\<lambda>l. l @ [CHR 0x0A]) ls)"
    and "\<forall>l\<in>set ls. CHR 0x0A \<notin> set l"
    and "\<forall>b\<in>set (concat chunks). (of_char b :: nat) < 0x80"
  shows "readLines chunks = ls"
proof -
  have "\<forall>c\<in>set chunks. decode c = c"
    using assms(3) by (auto intro!: decode_ascii)
  then have "readLines chunks = butlast (split (CHR 0x0A) (concat chunks))"
    unfolding readLines_def using readLinesLoop_framing [of chunks "[]"] by simp
  with assms(1,2) show ?thesis by (simp add: lines_of_stream)
qed


text \<open>
  C6. The line \<open>{"a":"\<acute>e"}\<close> followed by a newline, the \<open>\<acute>e\<close> being the two bytes
  \<open>C3 A9\<close>, is yielded intact when it arrives as one chunk. When the chunk boundary falls
  between the two bytes, the reader yields one line in which each half of the character
  has become a replacement character: the line is not the original one.
\<close>

theorem readLines_split_character:
  \<open>readLines [ex_line @ [CHR 0x0A]] = [ex_line] \<and>
   (''{"a":"'' @ [CHR 0xC3]) @ ([CHR 0xA9] @ ''"}'' @ [CHR 0x0A]) = ex_line @ [CHR 0x0A] \<and>
   readLines [''{"a":"'' @ [CHR 0xC3], [CHR 0xA9] @ ''"}'' @ [CHR 0x0A]] = [ex_line_damaged] \<and>
   ex_line_damaged \<noteq> ex_line\<close>
  by (simp add: readLines_def decode_def BOM_def replacement_def ex_line_def ex_line_damaged_def)

subsection \<open>Missing chunks\<close>

lemma map_of_filter_other: "x \<noteq> j \<Longrightarrow> map_of (filter (\<lambda>e. fst e \<noteq> j) es) x = map_of es x"
  by (induction es) auto

lemma map_of_filter_same: "map_of (filter (\<lambda>e. fst e \<noteq> j) es) j = None"
  by (induction es) auto

lemma map_of_refresh:
  "map_of es j = Some v \<Longrightarrow> map_of (filter (\<lambda>e. fst e \<noteq> j) es @ [(j, v)]) = map_of es"
  by (rule ext) (simp add: map_of_append map_add_def map_of_filter_other map_of_filter_same
      split: option.splits)

lemma cache_get_lookup: "map_of (entries (snd (cache_get c j))) = map_of (entries c)"
  by (simp add: cache_get_def map_of_refresh del: map_of_append split: option.splits)

lemma cache_get_value: "fst (cache_get c j) = (case map_of (entries c) j of None \<Rightarrow> None | Some v \<Rightarrow> v)"
  by (simp add: cache_get_def split: option.splits)

lemma lookupCached_uncached:
  assumes "lookupCached ids c ret reqIds = (c', ret', reqIds')" and "\<not> cached c k"
  shows "\<not> cached c' k \<and> ret' k = ret k \<and> (k \<in> set ids \<or> k \<in> set reqIds \<longrightarrow> k \<in> set reqIds')"
  using assms
proof (induction ids arbitrary: c ret reqIds)
  case Nil
  then show ?case by simp
next
  case (Cons i ids)
  obtain v c1 where g: "cache_get c (Some i) = (v, c1)" by (cases "cache_get c (Some i)")
  have lk: "map_of (entries c1) = map_of (entries c)"
    using cache_get_lookup [of c "Some i"] g by simp
  then have nc: "\<not> cached c1 k" using Cons.prems(2) by (simp add: cached_def)
  have val: "v = (case map_of (entries c) (Some i) of None \<Rightarrow> None | Some v \<Rightarrow> v)"
    using cache_get_value [of c "Some i"] g by simp
  show ?case
  proof (cases v)
    case None
    with Cons.prems(1) g have "lookupCached ids c1 ret (reqIds @ [i]) = (c', ret', reqIds')"
      by simp
    from Cons.IH [OF this nc] show ?thesis by auto
  next
    case (Some s)
    with val Cons.prems(2) have "i \<noteq> k"
      by (auto simp: cached_def split: option.splits)
    from Some Cons.prems(1) g
    have "lookupCached ids c1 (assignVal ret i (Payload s)) reqIds = (c', ret', reqIds')"
      by simp
    from Cons.IH [OF this nc] \<open>i \<noteq> k\<close> show ?thesis by (auto simp: assignVal_def)
  qed
qed

lemma set_unique_aux:
  "set (foldl (\<lambda>acc x. if x \<in> set acc then acc else acc @ [x]) acc xs) = set acc \<union> set xs"
  by (induction xs arbitrary: acc) auto

lemma set_unique: "set (unique xs) = set xs"
  by (simp add: unique_def set_unique_aux)

lemma collectRows_undelivered:
  assumes "collectRows E opts False rs c ret = (Inr ret', c')"
    and "\<forall>v\<in>set rs. r_key v = k \<longrightarrow> \<not> delivers v"
    and "ret k = None \<or> ret k = Some (Flag False)"
  shows "ret' k = None \<or> ret' k = Some (Flag False)"
  using assms
proof (induction rs arbitrary: c ret)
  case Nil
  then show ?case by simp
next
  case (Cons v vs)
  show ?case
  proof (cases "truthy (r_error v)")
    case True
    with Cons.prems(1) have "collectRows E opts False vs c (assignVal ret (r_key v) (Flag False)) = (Inr ret', c')"
      by simp
    from Cons.IH [OF this] Cons.prems(2,3) show ?thesis by (simp add: assignVal_def)
  next
    case False
    with Cons.prems(1) obtain d dat c1 plain where
      d: "r_doc v = Some (Some d)" "d_type d = Some ''leaf''" "d_data d = Some dat"
      and r: "collectRows E opts False vs c1 (assignVal ret (r_key v) (Payload plain)) = (Inr ret', c')"
      by (auto split: option.splits if_splits)
    from d False have "delivers v" by (simp add: delivers_def)
    with Cons.prems(2) have "r_key v \<noteq> k" by auto
    with Cons.IH [OF r] Cons.prems(2,3) show ?thesis by (simp add: assignVal_def)
  qed
qed

lemma getByMeta_missing:
  assumes k: "k \<in> set (d_children doc)"
    and ni: "\<not> inherited k"
    and nc: "\<not> cached (hashCaches st) k"
    and rem: "\<forall>keys rs. allDocsKeys R (remote st) True keys = Inr (Some rs) \<longrightarrow>
               (\<forall>v\<in>set rs. r_key v = k \<longrightarrow> \<not> delivers v)"
  shows "\<exists>e st'. getByMeta R E opts doc st = (Inl e, st')"
proof -
  obtain c ret reqIds where lc: "lookupCached (d_children doc) (hashCaches st) emptyObj [] = (c, ret, reqIds)"
    by (cases "lookupCached (d_children doc) (hashCaches st) emptyObj []") auto
  from lookupCached_uncached [OF lc nc] k ni have retk: "ret k = None" and req: "k \<in> set reqIds"
    by (auto simp: emptyObj_def)
  then have ne: "reqIds \<noteq> []" by auto
  show ?thesis
  proof (cases "allDocsKeys R (remote st) True (unique reqIds)")
    case (Inl e)
    with lc ne show ?thesis by (simp add: getByMeta_def collectChunks_def)
  next
    case (Inr resp)
    show ?thesis
    proof (cases resp)
      case None
      with Inr lc ne show ?thesis by (simp add: getByMeta_def collectChunks_def)
    next
      case (Some rs)
      with Inr rem have und: "\<forall>v\<in>set rs. r_key v = k \<longrightarrow> \<not> delivers v" by blast
      obtain res c1 where cr: "collectRows E opts False rs c ret = (res, c1)"
        by (cases "collectRows E opts False rs c ret")
      show ?thesis
      proof (cases res)
        case (Inl e)
        with cr Some Inr lc ne show ?thesis by (simp add: getByMeta_def collectChunks_def)
      next
        case (Inr ret')
        with cr have "collectRows E opts False rs c ret = (Inr ret', c1)" by simp
        from collectRows_undelivered [OF this und] retk
        have "ret' k = None \<or> ret' k = Some (Flag False)" by simp
        then have "Flag False \<in> set (map (\<lambda>e. case ret' e of None \<Rightarrow> Flag False | Some v \<Rightarrow> v) (d_children doc))"
          using k by (force split: option.splits)
        with cr Inr Some \<open>allDocsKeys R (remote st) True (unique reqIds) = Inr resp\<close> lc ne
        show ?thesis by (simp add: getByMeta_def collectChunks_def)
      qed
    qed
  qed
qed

lemma decryptDocumentPath_children:
  "decryptDocumentPath E opts d = Inr d' \<Longrightarrow> d_children d' = d_children d"
  by (auto simp: decryptDocumentPath_def split: option.splits if_splits)

text \<open>
  For an id that is not the name of a member of \<open>Object.prototype\<close> the check works.
  Let such an id be neither cached nor handed over by the remote: in whatever the remote
  answers to \<open>_all_docs\<close> with documents, every row for the id has an error (the id is
  reported missing), or no document, or a document whose type is not \<open>leaf\<close>, or one
  without data, or there is no row for it. Then \<open>getByMeta\<close> on an entry whose children
  contain the id ends in an error, and so does \<open>get\<close> without \<open>metaOnly\<close> for a path whose
  metadata entry contains it: no entry is returned.
\<close>

lemma missing_chunk_raises:
  assumes ni: "\<not> inherited k"
    and nc: "\<not> cached (hashCaches st) k"
    and rem: "\<forall>keys rs. allDocsKeys R (remote st) True keys = Inr (Some rs) \<longrightarrow>
               (\<forall>v\<in>set rs. r_key v = k \<longrightarrow> \<not> delivers v)"
  shows "(k \<in> set (d_children doc) \<longrightarrow> (\<exists>e st'. getByMeta R E opts doc st = (Inl e, st'))) \<and>
         (getDoc R (remote st) (path2id E opts path) = Inr doc \<and> isMeta doc \<and>
          k \<in> set (d_children doc) \<longrightarrow> (\<exists>e st'. get R E opts path False st = (Inl e, st')))"
proof (intro conjI impI)
  assume "k \<in> set (d_children doc)"
  then show "\<exists>e st'. getByMeta R E opts doc st = (Inl e, st')"
    using getByMeta_missing [OF _ ni nc rem] by blast
next
  assume a: "getDoc R (remote st) (path2id E opts path) = Inr doc \<and> isMeta doc \<and> k \<in> set (d_children doc)"
  let ?st1 = "st\<lparr>trace := trace st @ [Get (path2id E opts path)]\<rparr>"
  show "\<exists>e st'. get R E opts path False st = (Inl e, st')"
  proof (cases "decryptDocumentPath E opts doc")
    case (Inl e)
    with a show ?thesis by (simp add: get_def getById_def)
  next
    case (Inr doc')
    then have "k \<in> set (d_children doc')" using a decryptDocumentPath_children by simp
    moreover have "\<not> cached (hashCaches ?st1) k" using nc by simp
    moreover have "\<forall>keys rs. allDocsKeys R (remote ?st1) True keys = Inr (Some rs) \<longrightarrow>
               (\<forall>v\<in>set rs. r_key v = k \<longrightarrow> \<not> delivers v)" using rem by simp
    ultimately obtain e st' where "getByMeta R E opts doc' ?st1 = (Inl e, st')"
      using getByMeta_missing [OF _ ni] by blast
    with a Inr show ?thesis by (simp add: get_def getById_def Let_def)
  qed
qed

lemma missing_chunk_raises_example:
  "fst (getByMeta couch toy_env ex_opts ex_meta (init [(''a.md'', ex_meta)])) = Inl (MissingChunks ''a.md'') \<and>
   fst (get couch toy_env ex_opts ''a.md'' False (init [(''a.md'', ex_meta)])) = Inl (MissingChunks ''a.md'')"
proof -
  have ni: "\<not> inherited ''h:1''"
    by (simp add: ev)
  have nc: "\<not> cached (hashCaches (init [(''a.md'', ex_meta)])) ''h:1''"
    by (simp add: ev)
  have rem: "\<forall>keys rs. allDocsKeys couch (remote (init [(''a.md'', ex_meta)])) True keys = Inr (Some rs) \<longrightarrow>
               (\<forall>v\<in>set rs. r_key v = ''h:1'' \<longrightarrow> \<not> delivers v)"
    by (auto simp: ev delivers_def)
  from missing_chunk_raises [OF ni nc rem, of ex_meta toy_env ex_opts "''a.md''"]
  show ?thesis by (simp add: ev)
qed

text \<open>
  C3. The remote holds the metadata entry \<open>a.md\<close> whose only child is the id \<open>__proto__\<close>,
  and no document of that id: it answers the \<open>_all_docs\<close> request for the id with a row
  that reports \<open>not_found\<close>. \<open>getByMeta\<close> on the entry, and \<open>get\<close> of the path without
  \<open>metaOnly\<close>, do not throw: they return the entry with the prototype object in the place
  of the chunk. The assignment \<open>ret[k] = false\<close> has no effect for this id, and \<open>e in chunks\<close>
  finds the inherited member. The same entry with the child \<open>h:1\<close>, equally reported
  \<open>not_found\<close>, makes both throw \<open>Missing chunks\<close>.
\<close>

theorem missing_chunk_inherited_name:
  "allDocsKeys couch [(''a.md'', proto_meta)] True [''__proto__''] =
     Inr (Some [\<lparr>r_key = ''__proto__'', r_error = Some ''not_found'', r_doc = None\<rparr>]) \<and>
   fst (getByMeta couch toy_env ex_opts proto_meta (init [(''a.md'', proto_meta)])) =
     Inr (proto_meta\<lparr>d_data := Some (DArr [Inherited ''__proto__''])\<rparr>) \<and>
   fst (get couch toy_env ex_opts ''a.md'' False (init [(''a.md'', proto_meta)])) =
     Inr (Some (proto_meta\<lparr>d_data := Some (DArr [Inherited ''__proto__''])\<rparr>)) \<and>
   trace (snd (get couch toy_env ex_opts ''a.md'' False (init [(''a.md'', proto_meta)]))) =
     [Get ''a.md'', AllDocsKeys True [''__proto__'']] \<and>
   allDocsKeys couch [(''a.md'', ex_meta)] True [''h:1''] =
     Inr (Some [\<lparr>r_key = ''h:1'', r_error = Some ''not_found'', r_doc = None\<rparr>]) \<and>
   fst (getByMeta couch toy_env ex_opts ex_meta (init [(''a.md'', ex_meta)])) =
     Inl (MissingChunks ''a.md'') \<and>
   fst (get couch toy_env ex_opts ''a.md'' False (init [(''a.md'', ex_meta)])) =
     Inl (MissingChunks ''a.md'')"
  by (simp add: ev proto_meta_def)

subsection \<open>The bulk upload\<close>

lemma uploadResults_continues:
  "\<forall>ret\<in>set apiRet. b_ok ret \<or> b_error ret = Some ''conflict'' \<Longrightarrow>
   \<exists>c1. uploadResults apiRet chunks c = (Inr (), c1)"
  by (induction apiRet arbitrary: c) auto

lemma uploadResults_fails:
  "\<exists>ret\<in>set apiRet. \<not> b_ok ret \<and> b_error ret \<noteq> Some ''conflict'' \<Longrightarrow>
   \<exists>i c1. uploadResults apiRet chunks c = (Inl (ChunkUploadingFailed i), c1)"
  by (induction apiRet arbitrary: c) auto

lemma collectChunks_trace:
  "collectChunks R E opts ids oce st = (res, st1) \<Longrightarrow>
   remote st1 = remote st \<and>
   (trace st1 = trace st \<or> (\<exists>keys. trace st1 = trace st @ [AllDocsKeys (\<not> oce) keys]))"
  by (auto simp: collectChunks_def Let_def split: prod.splits if_splits sum.splits option.splits)

text \<open>
  C4. Let \<open>put\<close> have reached the bulk upload and the remote have answered it with a list
  of results. If some result is neither ok nor a conflict, \<open>put\<close> throws
  \<open>Chunk uploading failed\<close>: the remote is left as the upload left it and no \<open>PUT\<close> is among
  the requests that \<open>put\<close> sent. If every result is ok or a conflict, the loop over the
  results ends normally and \<open>put\<close> goes on: once the read of the old metadata returns, it
  sends the \<open>PUT\<close> of the metadata entry, with the children and the file information, and
  returns the remote's answer to it.
\<close>

theorem upload_error_policy:
  assumes mk: "makeChunks E opts (pieces E opts path dat) (hashCaches st, [], []) = (c, chunks, children)"
    and cc: "collectChunks R E opts (map fst chunks) True (st\<lparr>hashCaches := c\<rparr>) = (Inr existedIds, st1)"
    and bd: "bulkDocs R (remote st1)
               (map (leafOf E opts) (filter (\<lambda>e. notExisted (existedIds (fst e))) chunks)) =
             (Inr apiRet, r1)"
  shows
    "((\<exists>ret\<in>set apiRet. \<not> b_ok ret \<and> b_error ret \<noteq> Some ''conflict'') \<longrightarrow>
        (\<exists>i st' reqs. put R E opts path dat info type st = (Inl (ChunkUploadingFailed i), st') \<and>
           remote st' = r1 \<and> trace st' = trace st @ reqs \<and> (\<forall>j d. Put j d \<notin> set reqs))) \<and>
     ((\<forall>ret\<in>set apiRet. b_ok ret \<or> b_error ret = Some ''conflict'') \<longrightarrow>
        (\<exists>c1 st2. uploadResults apiRet chunks (hashCaches st1) = (Inr (), c1) \<and>
           remote st2 = r1 \<and>
           (\<forall>oldData st3. getById R E opts (path2id E opts path) True st2 = (Inr oldData, st3) \<longrightarrow>
              (\<exists>entry st'. put R E opts path dat info type st =
                   (fst (putDoc R (remote st3) (path2id E opts path) entry), st') \<and>
                 trace st' = trace st3 @ [Put (path2id E opts path) entry] \<and>
                 d_children entry = children \<and> d_ctime entry = i_ctime info \<and>
                 d_mtime entry = i_mtime info \<and> d_size entry = i_size info))))"
proof (intro conjI impI)
  let ?up = "map (leafOf E opts) (filter (\<lambda>e. notExisted (existedIds (fst e))) chunks)"
  assume "\<exists>ret\<in>set apiRet. \<not> b_ok ret \<and> b_error ret \<noteq> Some ''conflict''"
  then obtain i c1 where ur: "uploadResults apiRet chunks (hashCaches st1) = (Inl (ChunkUploadingFailed i), c1)"
    using uploadResults_fails by blast
  from collectChunks_trace [OF cc]
  have tr: "trace st1 = trace st \<or> (\<exists>keys. trace st1 = trace st @ [AllDocsKeys False keys])"
    by simp
  have p: "put R E opts path dat info type st =
      (Inl (ChunkUploadingFailed i), st1\<lparr>trace := trace st1 @ [BulkDocs ?up], remote := r1, hashCaches := c1\<rparr>)"
    using mk cc bd ur by (simp add: put_def Let_def)
  from tr have "\<exists>reqs. trace st1 @ [BulkDocs ?up] = trace st @ reqs \<and> (\<forall>j d. Put j d \<notin> set reqs)"
    by auto
  with p show "\<exists>i st' reqs. put R E opts path dat info type st = (Inl (ChunkUploadingFailed i), st') \<and>
           remote st' = r1 \<and> trace st' = trace st @ reqs \<and> (\<forall>j d. Put j d \<notin> set reqs)"
    by auto
next
  let ?up = "map (leafOf E opts) (filter (\<lambda>e. notExisted (existedIds (fst e))) chunks)"
  assume "\<forall>ret\<in>set apiRet. b_ok ret \<or> b_error ret = Some ''conflict''"
  then obtain c1 where ur: "uploadResults apiRet chunks (hashCaches st1) = (Inr (), c1)"
    using uploadResults_continues by blast
  let ?st2 = "st1\<lparr>trace := trace st1 @ [BulkDocs ?up], remote := r1, hashCaches := c1\<rparr>"
  have "\<exists>entry st'. put R E opts path dat info type st =
                   (fst (putDoc R (remote st3) (path2id E opts path) entry), st') \<and>
                 trace st' = trace st3 @ [Put (path2id E opts path) entry] \<and>
                 d_children entry = children \<and> d_ctime entry = i_ctime info \<and>
                 d_mtime entry = i_mtime info \<and> d_size entry = i_size info"
    if g: "getById R E opts (path2id E opts path) True ?st2 = (Inr oldData, st3)" for oldData st3
  proof -
    let ?theEntry = "encryptDocumentPath E opts
                                     \<lparr>d_id = Some (path2id E opts path), d_rev = None,
                                      d_type = Some type, d_path = path, d_children = children,
                                      d_ctime = i_ctime info, d_mtime = i_mtime info,
                                      d_size = i_size info, d_deleted = None, d_data = None\<rparr>"
    let ?entry = "case oldData of None \<Rightarrow> ?theEntry | Some old \<Rightarrow> ?theEntry\<lparr>d_rev := d_rev old\<rparr>"
    have f: "d_children ?entry = children \<and> d_ctime ?entry = i_ctime info \<and>
                 d_mtime ?entry = i_mtime info \<and> d_size ?entry = i_size info"
      by (simp add: encryptDocumentPath_def split: option.splits)
    have "put R E opts path dat info type st =
        (fst (putDoc R (remote st3) (path2id E opts path) ?entry),
         st3\<lparr>trace := trace st3 @ [Put (path2id E opts path) ?entry],
             remote := snd (putDoc R (remote st3) (path2id E opts path) ?entry)\<rparr>)"
      using mk cc bd ur g
      by (cases "putDoc R (remote st3) (path2id E opts path) ?entry")
        (auto simp: put_def Let_def split: sum.splits)
    with f show ?thesis by (intro exI [of _ ?entry]) auto
  qed
  with ur show "\<exists>c1 st2. uploadResults apiRet chunks (hashCaches st1) = (Inr (), c1) \<and>
           remote st2 = r1 \<and>
           (\<forall>oldData st3. getById R E opts (path2id E opts path) True st2 = (Inr oldData, st3) \<longrightarrow>
              (\<exists>entry st'. put R E opts path dat info type st =
                   (fst (putDoc R (remote st3) (path2id E opts path) entry), st') \<and>
                 trace st' = trace st3 @ [Put (path2id E opts path) entry] \<and>
                 d_children entry = children \<and> d_ctime entry = i_ctime info \<and>
                 d_mtime entry = i_mtime info \<and> d_size entry = i_size info))"
    by (intro exI [of _ c1] exI [of _ ?st2]) auto
qed


theorem upload_error_policy_witness:
  "fst (put (couch_answering [\<lparr>b_ok = False, b_id = Some ''h:7'', b_key = None, b_error = Some ''conflict''\<rparr>])
          toy_env ex_opts ''a.md'' [''Hello''] ex_info ''plain'' (init [])) = Inr True \<and>
   put (couch_answering [\<lparr>b_ok = False, b_id = Some ''h:7'', b_key = None, b_error = Some ''forbidden''\<rparr>])
          toy_env ex_opts ''a.md'' [''Hello''] ex_info ''plain'' (init []) =
     (Inl (ChunkUploadingFailed (Some ''h:7'')),
      (init [])\<lparr>trace := [AllDocsKeys False [''h:7''],
                  BulkDocs [\<lparr>l_id = ''h:7'', l_data = ''Hello'', l_type = ''leaf''\<rparr>]]\<rparr>)"
proof -
  let ?st1 = "(init [])\<lparr>trace := [AllDocsKeys False [''h:7'']]\<rparr>"
  have mk: "makeChunks toy_env ex_opts (pieces toy_env ex_opts ''a.md'' [''Hello'']) (hashCaches (init []), [], []) =
      (ex_cache, [(''h:7'', ''Hello'')], [''h:7''])"
    by (simp add: ev)
  have cc: "collectChunks (couch_answering rs) toy_env ex_opts (map fst [(''h:7'', ''Hello'')]) True
       ((init [])\<lparr>hashCaches := ex_cache\<rparr>) = (Inr (emptyObj(''h:7'' \<mapsto> Flag False)), ?st1)" for rs
    by (simp add: ev)
  have bd: "bulkDocs (couch_answering rs) (remote ?st1)
      (map (leafOf toy_env ex_opts)
        (filter (\<lambda>e. notExisted ((emptyObj(''h:7'' \<mapsto> Flag False)) (fst e))) [(''h:7'', ''Hello'')])) = (Inr rs, [])" for rs
    by (simp add: ev)
  from upload_error_policy [OF mk
      cc [of "[\<lparr>b_ok = False, b_id = Some ''h:7'', b_key = None, b_error = Some ''conflict''\<rparr>]"]
      bd [of "[\<lparr>b_ok = False, b_id = Some ''h:7'', b_key = None, b_error = Some ''conflict''\<rparr>]"],
      where info = ex_info and type = "''plain''"]
    upload_error_policy [OF mk
      cc [of "[\<lparr>b_ok = False, b_id = Some ''h:7'', b_key = None, b_error = Some ''forbidden''\<rparr>]"]
      bd [of "[\<lparr>b_ok = False, b_id = Some ''h:7'', b_key = None, b_error = Some ''forbidden''\<rparr>]"],
      where info = ex_info and type = "''plain''"]
  show ?thesis by (simp add: ev)
qed

subsection \<open>Deleting\<close>

lemma decryptDocumentPath_fields:
  "decryptDocumentPath E opts d = Inr old \<Longrightarrow>
   d_id old = d_id d \<and> d_rev old = d_rev d \<and> d_type old = d_type d \<and> d_ctime old = d_ctime d \<and>
   d_deleted old = d_deleted d \<and> d_data old = d_data d"
  by (auto simp: decryptDocumentPath_def split: option.splits if_splits)

text \<open>
  The cases of \<open>delete\<close> once the path of the entry decrypts. Let the remote answer the
  read of the path's document. If the answer is not a metadata entry (the path is
  absent), or it is one without a revision or one that is already deleted, \<open>delete\<close>
  returns \<open>true\<close> and has sent nothing but that read. If it is a metadata entry with a
  revision that is not deleted, \<open>delete\<close> sends one \<open>PUT\<close> of an entry with
  \<open>deleted = true\<close>, \<open>size = 0\<close>, \<open>children = []\<close>, the old \<open>ctime\<close>, \<open>mtime\<close> the current time,
  and the old \<open>_rev\<close>, \<open>_id\<close> and type, and returns the remote's answer to it.
\<close>

lemma delete_cases:
  assumes g: "getDoc R (remote st) (path2id E opts path) = Inr d"
  shows
    "(\<not> isMeta d \<longrightarrow>
        delete R E opts path now st = (Inr True, st\<lparr>trace := trace st @ [Get (path2id E opts path)]\<rparr>)) \<and>
     (isMeta d \<and> (\<exists>old. decryptDocumentPath E opts d = Inr old) \<and>
      (\<not> truthy (d_rev d) \<or> d_deleted d = Some True) \<longrightarrow>
        delete R E opts path now st = (Inr True, st\<lparr>trace := trace st @ [Get (path2id E opts path)]\<rparr>)) \<and>
     (isMeta d \<and> (\<exists>old. decryptDocumentPath E opts d = Inr old) \<and>
      truthy (d_rev d) \<and> d_deleted d \<noteq> Some True \<longrightarrow>
        (\<exists>newData.
           delete R E opts path now st =
             (fst (putDoc R (remote st) (path2id E opts path) newData),
              st\<lparr>trace := trace st @ [Get (path2id E opts path), Put (path2id E opts path) newData],
                 remote := snd (putDoc R (remote st) (path2id E opts path) newData)\<rparr>) \<and>
           d_deleted newData = Some True \<and> d_size newData = 0 \<and> d_children newData = [] \<and>
           d_ctime newData = d_ctime d \<and> d_mtime newData = now \<and> d_rev newData = d_rev d \<and>
           d_id newData = d_id d \<and> d_type newData = d_type d))"
proof (intro conjI impI)
  assume "\<not> isMeta d"
  with g show "delete R E opts path now st = (Inr True, st\<lparr>trace := trace st @ [Get (path2id E opts path)]\<rparr>)"
    by (simp add: delete_def getById_def)
next
  assume a: "isMeta d \<and> (\<exists>old. decryptDocumentPath E opts d = Inr old) \<and>
      (\<not> truthy (d_rev d) \<or> d_deleted d = Some True)"
  then obtain old where old: "decryptDocumentPath E opts d = Inr old" by blast
  from decryptDocumentPath_fields [OF old] a
  have "\<not> truthy (d_rev old) \<or> d_deleted old = Some True" by simp
  with g a old show "delete R E opts path now st = (Inr True, st\<lparr>trace := trace st @ [Get (path2id E opts path)]\<rparr>)"
    by (auto simp: delete_def getById_def)
next
  assume a: "isMeta d \<and> (\<exists>old. decryptDocumentPath E opts d = Inr old) \<and>
      truthy (d_rev d) \<and> d_deleted d \<noteq> Some True"
  then obtain old where old: "decryptDocumentPath E opts d = Inr old" by blast
  note f = decryptDocumentPath_fields [OF old]
  let ?new = "encryptDocumentPath E opts
                     \<lparr>d_id = d_id old, d_rev = d_rev old, d_type = d_type old,
                      d_path = d_path old, d_children = [], d_ctime = d_ctime old,
                      d_mtime = now, d_size = 0, d_deleted = Some True,
                      d_data = Some (case d_data old of None \<Rightarrow> DArr [] | Some d \<Rightarrow> d)\<rparr>"
  have "delete R E opts path now st =
             (fst (putDoc R (remote st) (path2id E opts path) ?new),
              st\<lparr>trace := trace st @ [Get (path2id E opts path), Put (path2id E opts path) ?new],
                 remote := snd (putDoc R (remote st) (path2id E opts path) ?new)\<rparr>)"
    using g a old f
    by (cases "putDoc R (remote st) (path2id E opts path) ?new")
      (auto simp: delete_def getById_def Let_def split: sum.splits)
  moreover have "d_deleted ?new = Some True \<and> d_size ?new = 0 \<and> d_children ?new = [] \<and>
           d_ctime ?new = d_ctime d \<and> d_mtime ?new = now \<and> d_rev ?new = d_rev d \<and>
           d_id ?new = d_id d \<and> d_type ?new = d_type d"
    using f by (simp add: encryptDocumentPath_def)
  ultimately show "\<exists>newData.
           delete R E opts path now st =
             (fst (putDoc R (remote st) (path2id E opts path) newData),
              st\<lparr>trace := trace st @ [Get (path2id E opts path), Put (path2id E opts path) newData],
                 remote := snd (putDoc R (remote st) (path2id E opts path) newData)\<rparr>) \<and>
           d_deleted newData = Some True \<and> d_size newData = 0 \<and> d_children newData = [] \<and>
           d_ctime newData = d_ctime d \<and> d_mtime newData = now \<and> d_rev newData = d_rev d \<and>
           d_id newData = d_id d \<and> d_type newData = d_type d"
    by blast
qed


lemma delete_cases_example:
  "delete couch toy_env ex_opts ''a.md'' 9 (init []) = (Inr True, (init [])\<lparr>trace := [Get ''a.md'']\<rparr>) \<and>
   delete couch toy_env ex_opts ''a.md'' 9 (init [(''a.md'', ex_tombstone)]) =
     (Inr True, (init [(''a.md'', ex_tombstone)])\<lparr>trace := [Get ''a.md'']\<rparr>) \<and>
   fst (delete couch toy_env ex_opts ''a.md'' 9 (init [(''a.md'', ex_meta)])) = Inr True \<and>
   trace (snd (delete couch toy_env ex_opts ''a.md'' 9 (init [(''a.md'', ex_meta)]))) =
     [Get ''a.md'', Put ''a.md'' ex_tombstone]"
  using delete_cases [of couch "init []" toy_env ex_opts "''a.md''" notFound 9]
    delete_cases [of couch "init [(''a.md'', ex_tombstone)]" toy_env ex_opts "''a.md''" ex_tombstone 9]
    delete_cases [of couch "init [(''a.md'', ex_meta)]" toy_env ex_opts "''a.md''" ex_meta 9]
  by (simp add: ev)

text \<open>
  C5. With a passphrase and no obfuscation passphrase, the entry that a first \<open>put\<close> of
  the file \<open>Hello\<close> wrote is not deleted: \<open>delete\<close> of its path throws in the decryption of
  the path, which was stored in clear, and the remote stays as it was. An entry of that
  remote that is already deleted makes \<open>delete\<close> throw in the same way instead of
  returning \<open>true\<close>. With the same passphrase for both options, \<open>delete\<close> after the same
  \<open>put\<close> returns \<open>true\<close> and leaves the entry with \<open>deleted = true\<close>, \<open>size = 0\<close>,
  \<open>children = []\<close>, the old \<open>ctime\<close>, \<open>mtime\<close> the current time and a new revision, and a
  second \<open>delete\<close> returns \<open>true\<close> and writes nothing.
\<close>

theorem delete_passphrase_only:
  "fst (put couch toy_env pw_opts ''a.md'' [''Hello''] ex_info ''plain'' (init [])) = Inr True \<and>
   fst (delete couch toy_env pw_opts ''a.md'' 9 (after_put pw_opts)) = Inl DecryptError \<and>
   remote (snd (delete couch toy_env pw_opts ''a.md'' 9 (after_put pw_opts))) =
     remote (after_put pw_opts) \<and>
   fst (delete couch toy_env pw_opts ''a.md'' 9 (init [(''a.md'', ex_tombstone)])) =
     Inl DecryptError \<and>
   fst (delete couch toy_env both_opts ''a.md'' 9 (after_put both_opts)) = Inr True \<and>
   map_of (remote (after_delete both_opts)) ''a.md'' =
     Some \<lparr>d_id = Some ''a.md'', d_rev = Some ''1+'', d_type = Some ''plain'',
           d_path = ''1p0a.md'', d_children = [], d_ctime = 1, d_mtime = 9, d_size = 0,
           d_deleted = Some True, d_data = Some (DArr [])\<rparr> \<and>
   fst (delete couch toy_env both_opts ''a.md'' 10 (after_delete both_opts)) = Inr True \<and>
   remote (snd (delete couch toy_env both_opts ''a.md'' 10 (after_delete both_opts))) =
     remote (after_delete both_opts)"
  by (simp add: ev after_delete_def)

subsection \<open>The cache after a write and after a read\<close>

lemma evict_keeps_last:
  "0 < n \<Longrightarrow> valueLength (snd e) \<le> m \<Longrightarrow>
   \<exists>pre. evict n m (es @ [e]) = pre @ [e] \<and> set pre \<subseteq> set es"
proof (induction es)
  case Nil
  then show ?case by (simp add: cachedLength_def)
next
  case (Cons x es)
  then obtain pre where "evict n m (es @ [e]) = pre @ [e]" "set pre \<subseteq> set es" by blast
  then show ?case
    by (cases "n < length ((x # es) @ [e]) \<or> m < cachedLength ((x # es) @ [e])")
      (auto intro: exI [of _ "x # es"])
qed

text \<open>What \<open>_collectChunks\<close> stores in the cache after a fetch is found there, unless
  the cache has no room for it.\<close>

lemma cache_set_cached:
  assumes "0 < maxCache c" and "length v \<le> maxCachedLength c"
  shows "cached (cache_set c (Some k) (Some v)) k \<and>
         fst (cache_get (cache_set c (Some k) (Some v)) (Some k)) = Some v"
proof -
  let ?es = "filter (\<lambda>e. fst e \<noteq> Some k) (entries c)"
  from assms obtain pre where
    ev: "evict (maxCache c) (maxCachedLength c) (?es @ [(Some k, Some v)]) = pre @ [(Some k, Some v)]"
    and pre: "set pre \<subseteq> set ?es"
    using evict_keeps_last [of "maxCache c" "(Some k, Some v)" "maxCachedLength c" ?es]
    by (auto simp: valueLength_def)
  from pre have "Some k \<notin> fst ` set pre" by auto
  then have "map_of pre (Some k) = None" by (simp add: map_of_eq_None_iff)
  with ev have "map_of (entries (cache_set c (Some k) (Some v))) (Some k) = Some (Some v)"
    by (simp add: cache_set_def map_add_def)
  then show ?thesis by (simp add: cached_def cache_get_def)
qed


text \<open>
  C9. A first \<open>put\<close> of the one-piece file \<open>Hello\<close> to the empty remote succeeds and uploads
  the leaf \<open>h:7\<close>, which the remote then holds. The remote's result for it has an \<open>id\<close> and no
  \<open>key\<close>, and \<open>put\<close> stores \<open>chunks[ret.key]\<close> under \<open>ret.key\<close>: afterwards the cache holds
  the one entry \<open>undefined \<mapsto> undefined\<close> and does not map \<open>h:7\<close> to anything. A \<open>get\<close> of the
  file then fetches the leaf, and after it the cache does hold \<open>h:7\<close>.
\<close>

theorem put_leaves_cache_unpopulated:
  "fst (put couch toy_env ex_opts ''a.md'' [''Hello''] ex_info ''plain'' (init [])) = Inr True \<and>
   trace (after_put ex_opts) ! 1 = BulkDocs [\<lparr>l_id = ''h:7'', l_data = ''Hello'', l_type = ''leaf''\<rparr>] \<and>
   map_of (remote (after_put ex_opts)) ''h:7'' =
     Some (storedLeaf \<lparr>l_id = ''h:7'', l_data = ''Hello'', l_type = ''leaf''\<rparr>) \<and>
   entries (hashCaches (after_put ex_opts)) = [(None, None)] \<and>
   \<not> cached (hashCaches (after_put ex_opts)) ''h:7'' \<and>
   cached (hashCaches (snd (get couch toy_env ex_opts ''a.md'' False (after_put ex_opts)))) ''h:7''"
  by (simp add: ev)

subsection \<open>Writing, then reading\<close>

text \<open>
  C1. With a passphrase and no obfuscation passphrase, a first \<open>put\<close> of the file \<open>Hello\<close>
  to the empty remote succeeds, and the \<open>get\<close> of the same path that follows throws: it
  decrypts, under the passphrase, a path that was stored in clear. With the same
  passphrase for both options the same \<open>put\<close> and \<open>get\<close> return the file: its chunk, its
  size and its times.
\<close>

theorem put_then_get_passphrase_only:
  "fst (put couch toy_env pw_opts ''a.md'' [''Hello''] ex_info ''plain'' (init [])) = Inr True \<and>
   fst (get couch toy_env pw_opts ''a.md'' False (after_put pw_opts)) = Inl DecryptError \<and>
   fst (put couch toy_env both_opts ''a.md'' [''Hello''] ex_info ''plain'' (init [])) = Inr True \<and>
   fst (get couch toy_env both_opts ''a.md'' False (after_put both_opts)) =
     Inr (Some \<lparr>d_id = Some ''a.md'', d_rev = Some ''1'', d_type = Some ''plain'', d_path = ''a.md'',
                 d_children = [''h:+9''], d_ctime = 1, d_mtime = 2, d_size = 5, d_deleted = None,
                 d_data = Some (DArr [Payload ''Hello''])\<rparr>)"
  by (simp add: ev)

subsection \<open>The change feed\<close>









lemma sinceOf_query: "sinceOf (Changes (followQuery s) # reqs) = s # sinceOf reqs"
  by (simp add: sinceOf_def followQuery_def)





subsection \<open>The enumeration\<close>

lemma less_append_nonempty: "ys \<noteq> [] \<Longrightarrow> xs < xs @ ys" for xs :: string
  by (induction xs) (auto simp: neq_Nil_conv)

lemma U_nonempty: "U10FFFF \<noteq> []"
  by (simp add: U10FFFF_def)

lemma boundaries:
  "''h:'' < ''h:'' @ U10FFFF" "''h:'' @ U10FFFF < ''i:''" "''i:'' < ''i:'' @ U10FFFF"
  "''i:'' @ U10FFFF < ''ix:''" "''ix:'' < ''ix:'' @ U10FFFF" "''ix:'' @ U10FFFF < ''ps:''"
  "''ps:'' < ''ps:'' @ U10FFFF" "''ps:'' @ U10FFFF < U10FFFF"
  by (simp_all add: U10FFFF_def less_char_def)

lemma Nil_le: "[] \<le> k" for k :: string
  by (cases k) auto

lemma chain_disjoint:
  fixes h :: "'a::linorder"
  assumes "h < hU" "hU < i" "i < iU" "iU < ix" "ix < ixU" "ixU < ps" "ps < psU" "psU < U"
  shows "\<not> ((b \<le> k \<and> k \<le> h) \<and> (hU \<le> k \<and> k \<le> i))"
    "\<not> ((b \<le> k \<and> k \<le> h) \<and> (iU \<le> k \<and> k \<le> ix))"
    "\<not> ((b \<le> k \<and> k \<le> h) \<and> (ixU \<le> k \<and> k \<le> ps))"
    "\<not> ((b \<le> k \<and> k \<le> h) \<and> (psU \<le> k \<and> k \<le> U))"
    "\<not> ((hU \<le> k \<and> k \<le> i) \<and> (iU \<le> k \<and> k \<le> ix))"
    "\<not> ((hU \<le> k \<and> k \<le> i) \<and> (ixU \<le> k \<and> k \<le> ps))"
    "\<not> ((hU \<le> k \<and> k \<le> i) \<and> (psU \<le> k \<and> k \<le> U))"
    "\<not> ((iU \<le> k \<and> k \<le> ix) \<and> (ixU \<le> k \<and> k \<le> ps))"
    "\<not> ((iU \<le> k \<and> k \<le> ix) \<and> (psU \<le> k \<and> k \<le> U))"
    "\<not> ((ixU \<le> k \<and> k \<le> ps) \<and> (psU \<le> k \<and> k \<le> U))"
  using assms by auto

lemma chain_covered:
  fixes h :: "'a::linorder"
  assumes "h < hU" "hU < i" "i < iU" "iU < ix" "ix < ixU" "ixU < ps" "ps < psU" "psU < U"
    and "b \<le> k"
  shows "((b \<le> k \<and> k \<le> h) \<or> (hU \<le> k \<and> k \<le> i) \<or> (iU \<le> k \<and> k \<le> ix) \<or>
          (ixU \<le> k \<and> k \<le> ps) \<or> (psU \<le> k \<and> k \<le> U)) \<longleftrightarrow>
         (k \<le> U \<and> \<not> ((h < k \<and> k < hU) \<or> (i < k \<and> k < iU) \<or> (ix < k \<and> k < ixU) \<or>
            (ps < k \<and> k < psU)))"
  using assms by auto

lemma targets_disjoint:
  "sorted_wrt (\<lambda>t u. \<forall>k. \<not> (in_range t k \<and> in_range u k)) targets"
  unfolding targets_def in_range_def
  by (simp only: sorted_wrt.simps list.set ball_simps fst_conv snd_conv simp_thms
      chain_disjoint [OF boundaries] insert_iff empty_iff HOL.simp_thms all_simps ball_empty
      bex_simps Set.ball_simps)

lemma covered_iff: "covered k \<longleftrightarrow> k \<le> U10FFFF \<and> \<not> reserved k"
  unfolding covered_def reserved_def targets_def in_range_def
  using chain_covered [OF boundaries Nil_le, of k]
  by (simp only: list_ex_Nil_iff list_ex_Cons_iff fst_conv snd_conv simp_thms)

lemma between_prefix:
  "p < k \<and> k < p @ u \<longleftrightarrow> (\<exists>s. k = p @ s \<and> s \<noteq> [] \<and> s < u)" for p k u :: string
proof (induction p arbitrary: k)
  case Nil
  then show ?case by (cases k) auto
next
  case (Cons a p)
  show ?case
  proof (cases k)
    case Nil
    then show ?thesis by simp
  next
    case (Cons b k')
    with Cons.IH [of k'] show ?thesis by auto
  qed
qed

lemma getByMeta_id: "getByMeta R E opts doc st = (Inr ready, st1) \<Longrightarrow> d_id ready = d_id doc"
  by (auto simp: getByMeta_def Let_def split: prod.splits sum.splits if_splits)

lemma getByMeta_remote: "getByMeta R E opts doc st = (res, st1) \<Longrightarrow> remote st1 = remote st"
  by (auto simp: getByMeta_def collectChunks_def Let_def
      split: prod.splits if_splits sum.splits option.splits)

lemma decryptDocumentPath_id: "decryptDocumentPath E opts d = Inr w \<Longrightarrow> d_id w = d_id d"
  by (auto simp: decryptDocumentPath_def split: option.splits if_splits)

lemma enumTask_frame:
  assumes "enumTask R E opts metaOnly e st = (res, st1)"
  shows "remote st1 = remote st \<and> (\<forall>v. res = Inr v \<longrightarrow> d_id v = d_id e)"
proof (cases "decryptDocumentPath E opts e")
  case (Inl x)
  with assms show ?thesis by (auto simp: enumTask_def)
next
  case (Inr w)
  show ?thesis
  proof (cases metaOnly)
    case True
    with Inr assms decryptDocumentPath_id [OF Inr] show ?thesis by (auto simp: enumTask_def)
  next
    case False
    obtain r st2 where g: "getByMeta R E opts w st = (r, st2)" by (cases "getByMeta R E opts w st")
    with Inr False assms getByMeta_remote [OF g] decryptDocumentPath_id [OF Inr] show ?thesis
      by (cases r) (auto simp: enumTask_def dest: getByMeta_id)
  qed
qed

lemma runTasks_ids:
  "runTasks R E opts metaOnly es st = (ys, st1) \<Longrightarrow>
   remote st1 = remote st \<and> set (map d_id ys) \<subseteq> set (map d_id es) \<and>
   (distinct (map d_id es) \<longrightarrow> distinct (map d_id ys))"
proof (induction es arbitrary: st ys st1)
  case Nil
  then show ?case by simp
next
  case (Cons e es)
  obtain res st2 where t: "enumTask R E opts metaOnly e st = (res, st2)"
    by (cases "enumTask R E opts metaOnly e st")
  note f = enumTask_frame [OF t]
  show ?case
  proof (cases res)
    case (Inl err)
    with t Cons.prems have "runTasks R E opts metaOnly es st2 = (ys, st1)" by simp
    from Cons.IH [OF this] f show ?thesis by auto
  next
    case (Inr ok)
    obtain vs st3 where r: "runTasks R E opts metaOnly es st2 = (vs, st3)"
      by (cases "runTasks R E opts metaOnly es st2")
    with Inr t Cons.prems have ys: "ys = ok # vs" "st1 = st3" by simp_all
    from f Inr have "d_id ok = d_id e" by simp
    with Cons.IH [OF r] f ys show ?thesis by auto
  qed
qed

lemma rowDocs_ids:
  assumes "\<forall>v\<in>set rs. \<forall>d. r_doc v = Some (Some d) \<longrightarrow> d_id d = Some (r_key v)"
    and "distinct (map r_key rs)"
  shows "distinct (map d_id (rowDocs rs)) \<and> set (map d_id (rowDocs rs)) \<subseteq> Some ` set (map r_key rs)"
  using assms
proof (induction rs)
  case Nil
  then show ?case by (simp add: rowDocs_def)
next
  case (Cons v rs)
  then have ih: "distinct (map d_id (rowDocs rs))"
      "set (map d_id (rowDocs rs)) \<subseteq> Some ` set (map r_key rs)"
    by auto
  have split: "rowDocs (v # rs) = (case r_doc v of Some (Some d) \<Rightarrow> [d] | _ \<Rightarrow> []) @ rowDocs rs"
    by (simp add: rowDocs_def)
  show ?case
  proof (cases "r_doc v")
    case None
    with ih split show ?thesis by auto
  next
    case (Some od)
    show ?thesis
    proof (cases od)
      case None
      with Some ih split show ?thesis by auto
    next
      case (Some d)
      with \<open>r_doc v = Some od\<close> Cons.prems have "d_id d = Some (r_key v)" by simp
      moreover from Cons.prems(2) have "r_key v \<notin> set (map r_key rs)" by simp
      ultimately show ?thesis using ih split Some \<open>r_doc v = Some od\<close> by auto
    qed
  qed
qed

lemma sorted_le_last: "sorted xs \<Longrightarrow> y \<in> set xs \<Longrightarrow> y \<le> last xs" for xs :: "'a::linorder list"
proof -
  assume s: "sorted xs" and y: "y \<in> set xs"
  then obtain i where i: "i < length xs" "xs ! i = y" by (auto simp: in_set_conv_nth)
  then have "xs ! i \<le> xs ! (length xs - 1)" using s by (intro sorted_nth_mono) auto
  with i y show ?thesis by (cases "xs = []") (auto simp: last_conv_nth)
qed

lemma enumeratePages_ids:
  assumes "range_sound R (remote st)"
    and "enumeratePages n R E opts metaOnly key endKey st = (ys, out, st')"
  shows "remote st' = remote st \<and> distinct (map d_id ys) \<and>
         (\<forall>y\<in>set ys. \<exists>k. d_id y = Some k \<and> key \<le> k \<and> k \<le> endKey)"
  using assms
proof (induction n arbitrary: key st ys out st')
  case 0
  then show ?case by simp
next
  case (Suc n)
  show ?case
  proof (cases "allDocsRange R (remote st) key endKey 100")
    case (Inl e)
    with Suc.prems(2) show ?thesis by simp
  next
    case (Inr resp)
    show ?thesis
    proof (cases resp)
      case None
      with Inr Suc.prems(2) show ?thesis by simp
    next
      case (Some rs)
      from Suc.prems(1) Inr Some have so: "sorted_wrt (<) (map r_key rs)"
        and rng: "\<forall>v\<in>set rs. key \<le> r_key v \<and> r_key v \<le> endKey"
        and ids: "\<forall>v\<in>set rs. \<forall>d. r_doc v = Some (Some d) \<longrightarrow> d_id d = Some (r_key v)"
        unfolding range_sound_def by blast+
      let ?key' = "r_key (last rs) @ U10FFFF"
      let ?st1 = "st\<lparr>trace := trace st @ [AllDocsRange ?key' endKey 100]\<rparr>"
      show ?thesis
      proof (cases "rs = [] \<or> (\<exists>v\<in>set rs. r_doc v = Some None)")
        case True
        with Inr Some Suc.prems(2) show ?thesis by (auto split: if_splits)
      next
        case False
        then have ne: "rs \<noteq> []" and nn: "\<not> (\<exists>v\<in>set rs. r_doc v = Some None)" by auto
        obtain ys1 st2 where rt: "runTasks R E opts metaOnly (filter isNote (rowDocs rs)) ?st1 = (ys1, st2)"
          by (cases "runTasks R E opts metaOnly (filter isNote (rowDocs rs)) ?st1")
        obtain zs out2 st3 where ep: "enumeratePages n R E opts metaOnly ?key' endKey st2 = (zs, out2, st3)"
          by (cases "enumeratePages n R E opts metaOnly ?key' endKey st2") auto
        from Inr Some ne nn rt ep Suc.prems(2)
        have res: "ys = ys1 @ zs" "st' = st3" by auto
        from so have dk: "distinct (map r_key rs)" and sk: "sorted (map r_key rs)"
          by (simp_all add: strict_sorted_iff)
        from rowDocs_ids [OF ids dk]
        have rd: "distinct (map d_id (rowDocs rs))"
          "set (map d_id (rowDocs rs)) \<subseteq> Some ` set (map r_key rs)" by auto
        have fd: "distinct (map d_id (filter isNote (rowDocs rs)))"
          using rd(1) by (rule distinct_map_filter)
        from runTasks_ids [OF rt] fd
        have y1: "remote st2 = remote st" "distinct (map d_id ys1)"
          "set (map d_id ys1) \<subseteq> set (map d_id (filter isNote (rowDocs rs)))" by auto
        have y1k: "\<exists>k. d_id y = Some k \<and> k \<in> set (map r_key rs)" if "y \<in> set ys1" for y
        proof -
          from that y1(3) have "d_id y \<in> set (map d_id (rowDocs rs))" by auto
          with rd(2) show ?thesis by auto
        qed
        have lastk: "k \<le> r_key (last rs)" if "k \<in> set (map r_key rs)" for k
          using sorted_le_last [OF sk that] ne by (simp add: last_map)
        have lt: "r_key (last rs) < ?key'"
          by (rule less_append_nonempty) (rule U_nonempty)
        have "range_sound R (remote st2)" using Suc.prems(1) y1(1) by simp
        from Suc.IH [OF this ep]
        have z: "remote st3 = remote st2" "distinct (map d_id zs)"
          "\<forall>y\<in>set zs. \<exists>k. d_id y = Some k \<and> ?key' \<le> k \<and> k \<le> endKey" by auto
        have lastin: "key \<le> r_key (last rs)" using rng ne by simp
        have disj: "set (map d_id ys1) \<inter> set (map d_id zs) = {}"
        proof (rule ccontr)
          assume "set (map d_id ys1) \<inter> set (map d_id zs) \<noteq> {}"
          then obtain y z' where yz: "y \<in> set ys1" "z' \<in> set zs" "d_id y = d_id z'" by auto
          from y1k [OF yz(1)] obtain k where k: "d_id y = Some k" "k \<in> set (map r_key rs)" by blast
          from z(3) yz(2) obtain k2 where k2: "d_id z' = Some k2" "?key' \<le> k2" by blast
          from k k2 yz(3) have "k = k2" by simp
          with lastk [OF k(2)] lt k2(2) show False by simp
        qed
        have r1: "\<exists>k. d_id y = Some k \<and> key \<le> k \<and> k \<le> endKey" if "y \<in> set ys1" for y
        proof -
          from y1k [OF that] obtain k where "d_id y = Some k" "k \<in> set (map r_key rs)" by blast
          with rng show ?thesis by auto
        qed
        have r2: "\<exists>k. d_id y = Some k \<and> key \<le> k \<and> k \<le> endKey" if "y \<in> set zs" for y
        proof -
          from z(3) that obtain k where "d_id y = Some k" "?key' \<le> k" "k \<le> endKey" by blast
          with lastin lt show ?thesis by auto
        qed
        from res y1 z disj r1 r2 show ?thesis by auto
      qed
    qed
  qed
qed

lemma enumerateTargets_ids:
  assumes "range_sound R (remote st)"
    and "sorted_wrt (\<lambda>t u. \<forall>k. \<not> (in_range t k \<and> in_range u k)) ts"
    and "enumerateTargets n R E opts metaOnly ts st = (ys, out, st')"
  shows "remote st' = remote st \<and> distinct (map d_id ys) \<and>
         (\<forall>y\<in>set ys. \<exists>k. d_id y = Some k \<and> (\<exists>t\<in>set ts. in_range t k))"
  using assms
proof (induction ts arbitrary: st ys out st')
  case Nil
  then show ?case by simp
next
  case (Cons t ts)
  let ?st0 = "st\<lparr>trace := trace st @ [AllDocsRange (fst t) (snd t) 100]\<rparr>"
  obtain ys1 out1 st1 where en: "enumeratePages n R E opts metaOnly (fst t) (snd t) ?st0 = (ys1, out1, st1)"
    by (cases "enumeratePages n R E opts metaOnly (fst t) (snd t) ?st0") auto
  have "range_sound R (remote ?st0)" using Cons.prems(1) by simp
  from enumeratePages_ids [OF this en]
  have p: "remote st1 = remote st" "distinct (map d_id ys1)"
    "\<forall>y\<in>set ys1. \<exists>k. d_id y = Some k \<and> in_range t k"
    by (auto simp: in_range_def)
  show ?case
  proof (cases "out1 = Finished")
    case False
    with en Cons.prems(3) have "ys = ys1" "st' = st1"
      by (cases out1; simp add: enumerateRange_def)+
    with p show ?thesis by auto
  next
    case True
    obtain zs out2 st2 where r: "enumerateTargets n R E opts metaOnly ts st1 = (zs, out2, st2)"
      by (cases "enumerateTargets n R E opts metaOnly ts st1") auto
    with True en Cons.prems(3) have res: "ys = ys1 @ zs" "st' = st2"
      by (simp_all add: enumerateRange_def)
    have "range_sound R (remote st1)" using Cons.prems(1) p(1) by simp
    moreover have "sorted_wrt (\<lambda>t u. \<forall>k. \<not> (in_range t k \<and> in_range u k)) ts"
      using Cons.prems(2) by simp
    ultimately have z: "remote st2 = remote st1" "distinct (map d_id zs)"
      "\<forall>y\<in>set zs. \<exists>k. d_id y = Some k \<and> (\<exists>u\<in>set ts. in_range u k)"
      using Cons.IH [OF _ _ r] by auto
    have sep: "\<forall>u\<in>set ts. \<forall>k. \<not> (in_range t k \<and> in_range u k)"
      using Cons.prems(2) by simp
    have disj: "set (map d_id ys1) \<inter> set (map d_id zs) = {}"
    proof (rule ccontr)
      assume "set (map d_id ys1) \<inter> set (map d_id zs) \<noteq> {}"
      then obtain y z' where yz: "y \<in> set ys1" "z' \<in> set zs" "d_id y = d_id z'" by auto
      from p(3) yz(1) obtain k where k: "d_id y = Some k" "in_range t k" by blast
      from z(3) yz(2) obtain k2 u where k2: "d_id z' = Some k2" "u \<in> set ts" "in_range u k2" by blast
      from k k2 yz(3) have "k = k2" by simp
      with k k2 sep show False by blast
    qed
    have r1: "\<exists>k. d_id y = Some k \<and> (\<exists>u\<in>set (t # ts). in_range u k)" if "y \<in> set ys1" for y
      using p(3) that by auto
    have r2: "\<exists>k. d_id y = Some k \<and> (\<exists>u\<in>set (t # ts). in_range u k)" if "y \<in> set zs" for y
    proof -
      from z(3) that obtain k u where "d_id y = Some k" "u \<in> set ts" "in_range u k" by blast
      then show ?thesis by auto
    qed
    have "\<forall>y\<in>set ys. \<exists>k. d_id y = Some k \<and> (\<exists>u\<in>set (t # ts). in_range u k)"
      using res r1 r2 by auto
    moreover have "remote st' = remote st" "distinct (map d_id ys)"
      using res p z disj by auto
    ultimately show ?thesis by blast
  qed
qed

lemma map_of_distinct_fst: "distinct (map fst db) \<Longrightarrow> (k, d) \<in> set db \<Longrightarrow> map_of db k = Some d"
  by simp

lemma couch_range_sound:
  assumes "distinct (map fst db)" and "\<forall>e\<in>set db. d_id (snd e) = Some (fst e)"
  shows "range_sound couch db"
  unfolding range_sound_def
proof (intro allI impI)
  fix s e l rs
  assume "allDocsRange couch db s e l = Inr (Some rs)"
  then have rs: "rs = map (\<lambda>x. rowOf db True (fst x))
      (take l (sort_key fst (filter (\<lambda>x. s \<le> fst x \<and> fst x \<le> e) db)))"
    by (simp add: couch_def)
  let ?sel = "sort_key fst (filter (\<lambda>x. s \<le> fst x \<and> fst x \<le> e) db)"
  have key: "r_key (rowOf db True k) = k" for k
    by (simp add: rowOf_def split: option.splits)
  have keys: "map r_key rs = take l (map fst ?sel)"
    unfolding rs by (simp add: key take_map o_def)
  have "distinct (map fst (filter (\<lambda>x. s \<le> fst x \<and> fst x \<le> e) db))"
    using assms(1) by (rule distinct_map_filter)
  then have "distinct (map fst ?sel)"
    by (simp add: distinct_map)
  moreover have "sorted (map fst ?sel)" by (rule sorted_sort_key)
  ultimately have "sorted_wrt (<) (map fst ?sel)" by (simp add: strict_sorted_iff)
  then have a: "sorted_wrt (<) (map r_key rs)"
    unfolding keys by (rule sorted_wrt_take)
  have b: "s \<le> r_key v \<and> r_key v \<le> e \<and> (\<forall>d. r_doc v = Some (Some d) \<longrightarrow> d_id d = Some (r_key v))"
    if "v \<in> set rs" for v
  proof -
    from that rs obtain x where x: "x \<in> set (take l ?sel)" "v = rowOf db True (fst x)" by auto
    from x(1) have "x \<in> set ?sel" by (rule in_set_takeD)
    then have xin: "x \<in> set db" "s \<le> fst x" "fst x \<le> e" by auto
    then have "map_of db (fst x) = Some (snd x)"
      using assms(1) by (simp add: map_of_distinct_fst [of db "fst x" "snd x"])
    with x(2) xin assms(2) show ?thesis
      by (auto simp: rowOf_def)
  qed
  from a b show "sorted_wrt (<) (map r_key rs) \<and>
        (\<forall>v\<in>set rs. s \<le> r_key v \<and> r_key v \<le> e \<and>
           (\<forall>d. r_doc v = Some (Some d) \<longrightarrow> d_id d = Some (r_key v)))" by blast
qed

text \<open>
  C7, as amended. The five key ranges are pairwise disjoint. A key lies in one of them
  exactly when it is at most \<open>"\u{10ffff}"\<close> and not reserved, and the reserved keys are
  those that consist of one of the prefixes \<open>h:\<close>, \<open>i:\<close>, \<open>ix:\<close>, \<open>ps:\<close> and a non-empty rest
  below \<open>"\u{10ffff}"\<close>. For a remote whose answers to range queries are sound, the ids of
  the entries that \<open>enumerateAllNormalDocs\<close> yields, within any number of pages for each
  range, are pairwise different, and each lies in one of the ranges.
\<close>

theorem enumeration_ranges:
  assumes "range_sound R (remote st)"
  shows "sorted_wrt (\<lambda>t u. \<forall>k. \<not> (in_range t k \<and> in_range u k)) targets \<and>
    (\<forall>k. covered k \<longleftrightarrow> k \<le> U10FFFF \<and> \<not> reserved k) \<and>
    (\<forall>k. reserved k \<longleftrightarrow>
       (\<exists>p\<in>set [''h:'', ''i:'', ''ix:'', ''ps:'']. \<exists>s. k = p @ s \<and> s \<noteq> [] \<and> s < U10FFFF)) \<and>
    distinct (map d_id (fst (enumerateAllNormalDocs n R E opts metaOnly st))) \<and>
    (\<forall>y\<in>set (fst (enumerateAllNormalDocs n R E opts metaOnly st)).
       \<exists>k. d_id y = Some k \<and> covered k)"
proof -
  obtain ys out st' where e: "enumerateTargets n R E opts metaOnly targets st = (ys, out, st')"
    by (cases "enumerateTargets n R E opts metaOnly targets st") auto
  from enumerateTargets_ids [OF assms targets_disjoint e]
  have "distinct (map d_id ys)" "\<forall>y\<in>set ys. \<exists>k. d_id y = Some k \<and> covered k"
    by (auto simp: covered_def list_ex_iff)
  with e have d: "distinct (map d_id (fst (enumerateAllNormalDocs n R E opts metaOnly st)))"
    "\<forall>y\<in>set (fst (enumerateAllNormalDocs n R E opts metaOnly st)). \<exists>k. d_id y = Some k \<and> covered k"
    by (simp_all add: enumerateAllNormalDocs_def)
  have r: "reserved k \<longleftrightarrow>
       (\<exists>p\<in>set [''h:'', ''i:'', ''ix:'', ''ps:'']. \<exists>s. k = p @ s \<and> s \<noteq> [] \<and> s < U10FFFF)" for k
    unfolding reserved_def list_ex_iff by (simp only: between_prefix)
  from targets_disjoint covered_iff r d show ?thesis by blast
qed

text \<open>
  C7, as stated, fails: the id \<open>h:\<close> has the prefix \<open>h:\<close> and lies in the first range, and
  the id \<open>i:a\<close> does not have the prefix \<open>h:\<close> and lies in no range.
\<close>

theorem enumeration_ranges_counterexample:
  "prefix ''h:'' ''h:'' \<and> covered ''h:'' \<and> \<not> prefix ''h:'' ''i:a'' \<and> \<not> covered ''i:a''"
  by (simp add: covered_def targets_def in_range_def U10FFFF_def less_char_def)


theorem enumeration_ranges_witness:
  "map d_id (fst (enumerateAllNormalDocs 2 couch toy_env ex_opts True (init ex_db))) =
     [Some ''a.md'', Some ''z.md''] \<and>
   distinct (map d_id (fst (enumerateAllNormalDocs 2 couch toy_env ex_opts True (init ex_db)))) \<and>
   fst (snd (enumerateAllNormalDocs 2 couch toy_env ex_opts True (init ex_db))) = Finished"
proof -
  have "range_sound couch ex_db"
    by (rule couch_range_sound) (simp_all add: ex_db_def ex_note_def storedLeaf_def)
  then have "range_sound couch (remote (init ex_db))" by (simp add: init_def)
  from enumeration_ranges [OF this, of 2 toy_env ex_opts True]
  have "distinct (map d_id (fst (enumerateAllNormalDocs 2 couch toy_env ex_opts True (init ex_db))))"
    by blast
  moreover have "\<exists>st'. enumerateAllNormalDocs 2 couch toy_env ex_opts True (init ex_db) =
      ([ex_note ''a.md'', ex_note ''z.md''], Finished, st')"
    by (simp add: ev numeral_2_eq_2)
  ultimately show ?thesis by (auto simp: ex_note_def)
qed


end
